theory Spec2Isabelle
  imports Complex_Main
begin

section \<open>Errors\<close>

text \<open>
  The Python exceptions that the modelled code paths can raise.  A function that may
  raise returns \<open>py_error + 'a\<close>, with \<open>Inl\<close> for the exception.
\<close>

datatype py_error = ValueError | IndexError

fun traverse :: "('a \<Rightarrow> py_error + 'b) \<Rightarrow> 'a list \<Rightarrow> py_error + 'b list" where
  "traverse f [] = Inr []"
| "traverse f (a # as) =
     (case f a of
        Inl e \<Rightarrow> Inl e
      | Inr b \<Rightarrow> (case traverse f as of Inl e \<Rightarrow> Inl e | Inr bs \<Rightarrow> Inr (b # bs)))"

definition py_index :: "'a list \<Rightarrow> int \<Rightarrow> py_error + 'a" where
  \<comment> \<open>\<open>xs[i]\<close> for one integer index of a list or an array: an index from
      \<open>-len(xs)\<close> to -1 counts from the end, anything else outside the sequence raises\<close>
  "py_index xs i =
     (if 0 \<le> i \<and> i < int (length xs) then Inr (xs ! nat i)
      else if - int (length xs) \<le> i \<and> i < 0 then Inr (xs ! nat (int (length xs) + i))
      else Inl IndexError)"


section \<open>The peak finder used by the evaluator\<close>

text \<open>
  \<open>evaluate_grasp_point\<close> calls \<open>scipy.signal.find_peaks(x, height=1, width=1)\<close> and
  \<open>numpy.argmax\<close>.  The functions below follow the library's loops
  (\<open>_local_maxima_1d\<close>, \<open>_peak_prominences\<close>, \<open>_peak_widths\<close>, \<open>find_peaks\<close>) index by
  index.  Samples are elements of an ordered field: the signals of the evaluator hold
  only 0 and 1, on which the library's float arithmetic is exact.
\<close>

subsection \<open>Local maxima with plateaus\<close>

function plateau_end :: "'a list \<Rightarrow> nat \<Rightarrow> nat \<Rightarrow> nat" where
  \<comment> \<open>\<open>while i_ahead < i_max and x[i_ahead] == x[i]: i_ahead += 1\<close>, with
      \<open>i_max = len(x) - 1\<close>\<close>
  "plateau_end x i i_ahead =
     (if i_ahead < length x - 1 \<and> x ! i_ahead = x ! i
      then plateau_end x i (i_ahead + 1) else i_ahead)"
  by pat_completeness auto
termination
  by (relation "measure (\<lambda>(x, i, i_ahead). length x - i_ahead)") auto

declare plateau_end.simps [simp del]

lemma plateau_end_ge: "i_ahead \<le> plateau_end x i i_ahead"
proof (induction x i i_ahead rule: plateau_end.induct)
  case (1 x i i_ahead)
  show ?case
  proof (cases "i_ahead < length x - 1 \<and> x ! i_ahead = x ! i")
    case True
    then have "i_ahead + 1 \<le> plateau_end x i (i_ahead + 1)" using "1" by simp
    then show ?thesis using True by (subst plateau_end.simps) simp
  next
    case False
    then show ?thesis by (subst plateau_end.simps) auto
  qed
qed

function local_maxima_loop :: "('a::linorder) list \<Rightarrow> nat \<Rightarrow> (nat \<times> nat \<times> nat) list" where
  \<comment> \<open>The outer loop of \<open>_local_maxima_1d\<close> from index \<open>i\<close> on; each entry is
      (midpoint, left edge, right edge) of one plateau that is higher than both
      neighbours.\<close>
  "local_maxima_loop x i =
     (if i < length x - 1 then
        (if x ! (i - 1) < x ! i then
           (let i_ahead = plateau_end x i (i + 1) in
            if x ! i_ahead < x ! i
            then ((i + (i_ahead - 1)) div 2, i, i_ahead - 1) # local_maxima_loop x (i_ahead + 1)
            else local_maxima_loop x (i + 1))
         else local_maxima_loop x (i + 1))
      else [])"
  by pat_completeness auto
termination
proof (relation "measure (\<lambda>(x, i). length x - i)", goal_cases)
  case 1
  show ?case by simp
next
  case (2 x i i_ahead)
  have "i + 1 \<le> plateau_end x i (i + 1)" by (rule plateau_end_ge)
  with 2 show ?case by simp
next
  case (3 x i i_ahead)
  then show ?case by simp
next
  case (4 x i)
  then show ?case by simp
qed

declare local_maxima_loop.simps [simp del]

definition local_maxima_1d :: "('a::linorder) list \<Rightarrow> (nat \<times> nat \<times> nat) list" where
  "local_maxima_1d x = local_maxima_loop x 1"

subsection \<open>Prominences\<close>

function left_base_loop :: "('a::linorder) list \<Rightarrow> nat \<Rightarrow> int \<Rightarrow> 'a \<Rightarrow> nat \<Rightarrow> 'a \<times> nat" where
  \<comment> \<open>\<open>while i_min <= i and x[i] <= x[peak]\<close> with \<open>i_min = 0\<close>; the index runs down
      to -1\<close>
  "left_base_loop x peak i left_min left_base =
     (if 0 \<le> i \<and> x ! nat i \<le> x ! peak then
        (if x ! nat i < left_min
         then left_base_loop x peak (i - 1) (x ! nat i) (nat i)
         else left_base_loop x peak (i - 1) left_min left_base)
      else (left_min, left_base))"
  by pat_completeness auto
termination
  by (relation "measure (\<lambda>(x, peak, i, left_min, left_base). nat (i + 1))") auto

declare left_base_loop.simps [simp del]

function right_base_loop :: "('a::linorder) list \<Rightarrow> nat \<Rightarrow> nat \<Rightarrow> 'a \<Rightarrow> nat \<Rightarrow> 'a \<times> nat" where
  \<comment> \<open>\<open>while i <= i_max and x[i] <= x[peak]\<close> with \<open>i_max = len(x) - 1\<close>\<close>
  "right_base_loop x peak i right_min right_base =
     (if i < length x \<and> x ! i \<le> x ! peak then
        (if x ! i < right_min
         then right_base_loop x peak (i + 1) (x ! i) i
         else right_base_loop x peak (i + 1) right_min right_base)
      else (right_min, right_base))"
  by pat_completeness auto
termination
  by (relation "measure (\<lambda>(x, peak, i, right_min, right_base). length x - i)") auto

declare right_base_loop.simps [simp del]

definition peak_prominence ::
  "('a::linordered_field) list \<Rightarrow> nat \<Rightarrow> py_error + ('a \<times> nat \<times> nat)" where
  \<comment> \<open>One iteration of \<open>_peak_prominences\<close> without a window: (prominence, left base,
      right base) of the peak.\<close>
  "peak_prominence x peak =
     (if \<not> peak < length x then Inl ValueError
      else
        let (left_min, left_base) = left_base_loop x peak (int peak) (x ! peak) peak;
            (right_min, right_base) = right_base_loop x peak peak (x ! peak) peak
        in Inr (x ! peak - max left_min right_min, left_base, right_base))"

subsection \<open>Widths\<close>

function left_ip_loop :: "('a::linorder) list \<Rightarrow> nat \<Rightarrow> 'a \<Rightarrow> nat \<Rightarrow> nat" where
  \<comment> \<open>\<open>while i_min < i and height < x[i]: i -= 1\<close>\<close>
  "left_ip_loop x i_min height i =
     (if i_min < i \<and> height < x ! i then left_ip_loop x i_min height (i - 1) else i)"
  by pat_completeness auto
termination
  by (relation "measure (\<lambda>(x, i_min, height, i). i)") auto

declare left_ip_loop.simps [simp del]

function right_ip_loop :: "('a::linorder) list \<Rightarrow> nat \<Rightarrow> 'a \<Rightarrow> nat \<Rightarrow> nat" where
  \<comment> \<open>\<open>while i < i_max and height < x[i]: i += 1\<close>\<close>
  "right_ip_loop x i_max height i =
     (if i < i_max \<and> height < x ! i then right_ip_loop x i_max height (i + 1) else i)"
  by pat_completeness auto
termination
  by (relation "measure (\<lambda>(x, i_max, height, i). i_max - i)") auto

declare right_ip_loop.simps [simp del]

definition peak_width ::
  "('a::linordered_field) list \<Rightarrow> 'a \<Rightarrow> nat \<times> 'a \<times> nat \<times> nat \<Rightarrow> py_error + 'a" where
  \<comment> \<open>One iteration of \<open>_peak_widths\<close>: the width of the peak at the evaluation height
      \<open>x[peak] - prominence * rel_height\<close>, with both crossings interpolated linearly.\<close>
  "peak_width x rel_height p =
     (case p of (peak, prominence, i_min, i_max) \<Rightarrow>
        if \<not> (i_min \<le> peak \<and> peak \<le> i_max \<and> i_max < length x) then Inl ValueError
        else
          let height = x ! peak - prominence * rel_height;
              i = left_ip_loop x i_min height peak;
              left_ip = (if x ! i < height
                         then of_nat i + (height - x ! i) / (x ! (i + 1) - x ! i)
                         else of_nat i);
              j = right_ip_loop x i_max height peak;
              right_ip = (if x ! j < height
                          then of_nat j - (height - x ! j) / (x ! (j - 1) - x ! j)
                          else of_nat j)
          in Inr (right_ip - left_ip))"

subsection \<open>\<open>find_peaks\<close> with a height and a width condition\<close>

definition find_peaks ::
  "('a::linordered_field) list \<Rightarrow> 'a \<Rightarrow> 'a \<Rightarrow> py_error + (nat list \<times> 'a list)" where
  \<comment> \<open>Returns the peak indices and \<open>properties["widths"]\<close>.  The relative height of the
      width measurement is the default 0.5.\<close>
  "find_peaks x height width =
     (let peaks = map fst (local_maxima_1d x);
          peaks = filter (\<lambda>p. height \<le> x ! p) peaks
      in case traverse (peak_prominence x) peaks of
           Inl e \<Rightarrow> Inl e
         | Inr proms \<Rightarrow>
             (case traverse (peak_width x (1 / 2)) (zip peaks proms) of
                Inl e \<Rightarrow> Inl e
              | Inr widths \<Rightarrow>
                  (let keep = filter (\<lambda>(p, w). width \<le> w) (zip peaks widths)
                   in Inr (map fst keep, map snd keep))))"

subsection \<open>\<open>numpy.argmax\<close>\<close>

fun argmax_loop :: "('a::linorder) list \<Rightarrow> nat \<Rightarrow> nat \<Rightarrow> 'a \<Rightarrow> nat" where
  \<comment> \<open>Scans left to right and keeps the first index of the greatest value.\<close>
  "argmax_loop [] i best best_val = best"
| "argmax_loop (w # ws) i best best_val =
     (if best_val < w then argmax_loop ws (i + 1) i w
      else argmax_loop ws (i + 1) best best_val)"

definition argmax :: "('a::linorder) list \<Rightarrow> py_error + nat" where
  "argmax ws = (case ws of [] \<Rightarrow> Inl ValueError | w # ws' \<Rightarrow> Inr (argmax_loop ws' 1 0 w))"

subsection \<open>The index of the widest peak\<close>

definition idx_of_widest_peak :: "real list \<Rightarrow> py_error + int" where
  \<comment> \<open>\<open>peaks, properties = signal.find_peaks(x=np.r_[0, successes, 0], height=1, width=1)\<close>
      and \<open>peaks[np.argmax(properties["widths"])] - 1\<close>\<close>
  "idx_of_widest_peak successes =
     (case find_peaks (0 # successes @ [0]) 1 1 of
        Inl e \<Rightarrow> Inl e
      | Inr (peaks, widths) \<Rightarrow>
          (case argmax widths of
             Inl e \<Rightarrow> Inl e
           | Inr k \<Rightarrow>
               (case py_index peaks (int k) of
                  Inl e \<Rightarrow> Inl e
                | Inr peak \<Rightarrow> Inr (int peak - 1))))"


section \<open>Vectors, rotations, poses and grasps\<close>

type_synonym vec3 = "real \<times> real \<times> real"

fun dot :: "vec3 \<Rightarrow> vec3 \<Rightarrow> real" where
  "dot (a1, a2, a3) (b1, b2, b3) = a1 * b1 + a2 * b2 + a3 * b3"

fun cross :: "vec3 \<Rightarrow> vec3 \<Rightarrow> vec3" where
  "cross (a1, a2, a3) (b1, b2, b3) = (a2 * b3 - a3 * b2, a3 * b1 - a1 * b3, a1 * b2 - a2 * b1)"

fun vneg :: "vec3 \<Rightarrow> vec3" where
  "vneg (a1, a2, a3) = (- a1, - a2, - a3)"

fun vadd :: "vec3 \<Rightarrow> vec3 \<Rightarrow> vec3" where
  "vadd (a1, a2, a3) (b1, b2, b3) = (a1 + b1, a2 + b2, a3 + b3)"

fun vscale :: "real \<Rightarrow> vec3 \<Rightarrow> vec3" where
  "vscale c (a1, a2, a3) = (c * a1, c * a2, c * a3)"

text \<open>
  Modelled from the spec: the classes \<open>Rotation\<close> and \<open>Transform\<close> of
  \<open>vgn.utils.transform\<close> and \<open>Grasp\<close> of \<open>vgn.grasp\<close> are not among the source files.
  The spec describes a grasp as a rigid pose (rotation and translation) with a scalar
  gripper opening, and an orientation as a 4-component unit quaternion.  \<open>Rotation\<close>
  is SciPy's rotation class, which stores the quaternion in the order (x, y, z, w);
  the constructors and the product below are SciPy's formulas over the reals.
\<close>

datatype rotation = Quat (qx: real) (qy: real) (qz: real) (qw: real)

definition rot_identity :: rotation where
  "rot_identity = Quat 0 0 0 1"

fun rot_mul :: "rotation \<Rightarrow> rotation \<Rightarrow> rotation" where
  \<comment> \<open>\<open>p * q\<close>: the Hamilton product, the rotation \<open>q\<close> followed by \<open>p\<close>\<close>
  "rot_mul (Quat px py pz pw) (Quat rx ry rz rw) =
     Quat (pw * rx + rw * px + (py * rz - pz * ry))
          (pw * ry + rw * py + (pz * rx - px * rz))
          (pw * rz + rw * pz + (px * ry - py * rx))
          (pw * rw - (px * rx + py * ry + pz * rz))"

definition from_euler_z :: "real \<Rightarrow> rotation" where
  \<comment> \<open>\<open>Rotation.from_euler("z", yaw)\<close>\<close>
  "from_euler_z yaw = Quat 0 0 (sin (yaw / 2)) (cos (yaw / 2))"

definition from_rotvec :: "vec3 \<Rightarrow> rotation" where
  \<comment> \<open>\<open>Rotation.from_rotvec\<close>: axis times angle; below 0.001 rad the scale is a
      Taylor polynomial\<close>
  "from_rotvec v =
     (case v of (v1, v2, v3) \<Rightarrow>
        let angle = sqrt (v1 * v1 + v2 * v2 + v3 * v3);
            scale = (if angle \<le> 1 / 1000
                     then 1 / 2 - angle ^ 2 / 48 + angle ^ 4 / 3840
                     else sin (angle / 2) / angle)
        in Quat (scale * v1) (scale * v2) (scale * v3) (cos (angle / 2)))"

definition quat_norm :: "rotation \<Rightarrow> real" where
  "quat_norm q = sqrt (qx q * qx q + qy q * qy q + qz q * qz q + qw q * qw q)"

definition quat_neg :: "rotation \<Rightarrow> rotation" where
  "quat_neg q = Quat (- qx q) (- qy q) (- qz q) (- qw q)"

definition as_quat :: "rotation \<Rightarrow> real \<times> real \<times> real \<times> real" where
  "as_quat q = (qx q, qy q, qz q, qw q)"

definition as_dcm :: "rotation \<Rightarrow> vec3 \<times> vec3 \<times> vec3" where
  \<comment> \<open>the three columns of the rotation matrix of a unit quaternion\<close>
  "as_dcm q =
     (case q of Quat x y z w \<Rightarrow>
        ((1 - 2 * (y * y + z * z), 2 * (x * y + z * w), 2 * (x * z - y * w)),
         (2 * (x * y - z * w), 1 - 2 * (x * x + z * z), 2 * (y * z + x * w)),
         (2 * (x * z + y * w), 2 * (y * z - x * w), 1 - 2 * (x * x + y * y))))"

definition from_dcm :: "vec3 \<times> vec3 \<times> vec3 \<Rightarrow> rotation" where
  \<comment> \<open>\<open>Rotation.from_dcm\<close> on the matrix with the given columns: the largest of the
      three diagonal entries and the trace selects the formula, and the quaternion is
      normalised at the end.\<close>
  "from_dcm m =
     (case m of ((m00, m10, m20), (m01, m11, m21), (m02, m12, m22)) \<Rightarrow>
        let tr = m00 + m11 + m22;
            q = (case argmax [m00, m11, m22, tr] of
                   Inr 0 \<Rightarrow>
                     Quat (1 - tr + 2 * m00) (m10 + m01) (m20 + m02) (m21 - m12)
                 | Inr (Suc 0) \<Rightarrow>
                     Quat (m01 + m10) (1 - tr + 2 * m11) (m21 + m12) (m02 - m20)
                 | Inr (Suc (Suc 0)) \<Rightarrow>
                     Quat (m02 + m20) (m12 + m21) (1 - tr + 2 * m22) (m10 - m01)
                 | _ \<Rightarrow>
                     Quat (m21 - m12) (m02 - m20) (m10 - m01) (1 + tr));
            n = quat_norm q
        in Quat (qx q / n) (qy q / n) (qz q / n) (qw q / n))"

record transform =
  rotation :: rotation
  translation :: vec3

record grasp =
  pose :: transform
  width :: real

definition Transform :: "rotation \<Rightarrow> vec3 \<Rightarrow> transform" where
  "Transform ori pos = \<lparr>rotation = ori, translation = pos\<rparr>"

definition Grasp :: "transform \<Rightarrow> real \<Rightarrow> grasp" where
  "Grasp T w = \<lparr>pose = T, width = w\<rparr>"

definition to_voxel_coordinates :: "grasp \<Rightarrow> real \<Rightarrow> grasp" where
  \<comment> \<open>Modelled from the spec: \<open>to_voxel_coordinates\<close> of \<open>vgn.grasp\<close> is not among the
      source files.  The spec has it scale the translation by the voxel size, with the
      identity as base frame, and leave the orientation and the gripper opening as
      they are.\<close>
  "to_voxel_coordinates g voxel_size =
     \<lparr>pose = \<lparr>rotation = rotation (pose g),
              translation = vscale (1 / voxel_size) (translation (pose g))\<rparr>,
      width = width g\<rparr>"


section \<open>The collaborators: simulation and random source\<close>

text \<open>
  The simulation handle and numpy's global random generator are external and stateful.
  Each is a record of operations over an explicit state, which every call takes and
  returns.  Outcomes are the integer codes of the enumeration \<open>Label\<close>, which is not
  among the source files: the code of \<open>Label.SUCCESS\<close> is the parameter \<open>success\<close>
  of the functions below.
\<close>

record 's simulation =
  restore_state :: "'s \<Rightarrow> 's"
  test_grasp :: "'s \<Rightarrow> transform \<Rightarrow> (int \<times> real) \<times> 's"

record 'g random_source =
  randint :: "'g \<Rightarrow> nat \<Rightarrow> nat \<times> 'g"
  uniform :: "'g \<Rightarrow> real \<Rightarrow> real \<Rightarrow> real \<times> 'g"

definition well_formed_random :: "'g random_source \<Rightarrow> bool" where
  \<comment> \<open>what numpy promises of its draws: \<open>randint(n)\<close> lies in \<open>[0, n)\<close> and
      \<open>uniform(low, high)\<close> lies between its bounds\<close>
  "well_formed_random rng =
     ((\<forall>g n. 0 < n \<longrightarrow> fst (randint rng g n) < n) \<and>
      (\<forall>g low high. low \<le> high \<longrightarrow>
         low \<le> fst (uniform rng g low high) \<and> fst (uniform rng g low high) \<le> high))"


section \<open>Candidate sampler\<close>

definition sample_grasp_point ::
  "'g random_source \<Rightarrow> 'g \<Rightarrow> vec3 list \<Rightarrow> vec3 list \<Rightarrow> real \<Rightarrow> py_error + ((vec3 \<times> vec3) \<times> 'g)" where
  \<comment> \<open>\<open>points\<close> and \<open>normals\<close> are the two arrays of the point cloud.
      \<open>np.random.randint(0)\<close> raises ValueError.\<close>
  "sample_grasp_point rng g points normals finger_depth =
     (if length points = 0 then Inl ValueError
      else
        let (idx, g1) = randint rng g (length points) in
        case py_index points (int idx) of
          Inl e \<Rightarrow> Inl e
        | Inr point \<Rightarrow>
            (case py_index normals (int idx) of
               Inl e \<Rightarrow> Inl e
             | Inr normal \<Rightarrow>
                 (let eps = 2 / 10;
                      (grasp_depth, g2) =
                        uniform rng g1 (- eps * finger_depth) ((1 + eps) * finger_depth);
                      point' = vadd point (vscale (finger_depth - grasp_depth) normal)
                  in Inr ((point', normal), g2))))"


section \<open>Grasp frame and evaluator\<close>

definition isclose :: "real \<Rightarrow> real \<Rightarrow> real \<Rightarrow> bool" where
  \<comment> \<open>\<open>np.isclose(a, b, rtol)\<close> with the default absolute tolerance\<close>
  "isclose a b rtol = (\<bar>a - b\<bar> \<le> 1 / 10 ^ 8 + rtol * \<bar>b\<bar>)"

definition reference_axis :: "vec3 \<Rightarrow> vec3" where
  \<comment> \<open>the provisional \<open>x_axis\<close> for the approach axis \<open>z_axis\<close>\<close>
  "reference_axis z_axis =
     (if isclose \<bar>dot (1, 0, 0) z_axis\<bar> 1 (1 / 10 ^ 4) then (0, 1, 0) else (1, 0, 0))"

definition grasp_frame :: "vec3 \<Rightarrow> vec3 \<times> vec3 \<times> vec3" where
  \<comment> \<open>the columns \<open>(x_axis, y_axis, z_axis)\<close> of the matrix handed to
      \<open>Rotation.from_dcm\<close>\<close>
  "grasp_frame normal =
     (let z_axis = vneg normal;
          x_axis = reference_axis z_axis;
          y_axis = cross z_axis x_axis;
          x_axis = cross y_axis z_axis
      in (x_axis, y_axis, z_axis))"

definition linspace :: "real \<Rightarrow> real \<Rightarrow> nat \<Rightarrow> real list" where
  \<comment> \<open>\<open>np.linspace(start, stop, num)\<close>, end point included\<close>
  "linspace start stop num =
     (if num = 1 then [start]
      else map (\<lambda>i. start + of_nat i * ((stop - start) / of_nat (num - 1))) [0..<num])"

fun sweep ::
  "'s simulation \<Rightarrow> rotation \<Rightarrow> vec3 \<Rightarrow> real list \<Rightarrow> 's \<Rightarrow> (int \<times> real) list \<times> 's" where
  \<comment> \<open>the loop over the yaw angles: the (outcome, width) of every attempt, in order\<close>
  "sweep sim R pos [] s = ([], s)"
| "sweep sim R pos (yaw # yaws) s =
     (let ori = rot_mul R (from_euler_z yaw);
          s1 = restore_state sim s;
          (result, s2) = test_grasp sim s1 (Transform ori pos);
          (results, s3) = sweep sim R pos yaws s2
      in (result # results, s3))"

definition np_max :: "int list \<Rightarrow> py_error + int" where
  \<comment> \<open>\<open>int(np.max(outcomes))\<close>; numpy raises ValueError on an empty sequence\<close>
  "np_max outcomes = (if outcomes = [] then Inl ValueError else Inr (Max (set outcomes)))"

definition successes_of :: "int \<Rightarrow> int list \<Rightarrow> real list" where
  \<comment> \<open>\<open>(np.asarray(outcomes) == Label.SUCCESS).astype(float)\<close>\<close>
  "successes_of success outcomes = map (\<lambda>outcome. if outcome = success then 1 else 0) outcomes"

definition evaluate_grasp_point ::
  "int \<Rightarrow> 's simulation \<Rightarrow> 's \<Rightarrow> vec3 \<Rightarrow> vec3 \<Rightarrow> int \<Rightarrow> py_error + ((grasp \<times> int) \<times> 's)" where
  \<comment> \<open>\<open>np.linspace\<close> raises ValueError on a negative number of samples.\<close>
  "evaluate_grasp_point success sim s pos normal num_rotations =
     (if num_rotations < 0 then Inl ValueError
      else
        let R = from_dcm (grasp_frame normal);
            yaws = linspace 0 pi (nat num_rotations);
            (results, s') = sweep sim R pos yaws s;
            outcomes = map fst results;
            widths = map snd results;
            successes = successes_of success outcomes
        in if sum_list successes \<noteq> 0 then
             (case idx_of_widest_peak successes of
                Inl e \<Rightarrow> Inl e
              | Inr idx \<Rightarrow>
                  (case py_index yaws idx of
                     Inl e \<Rightarrow> Inl e
                   | Inr yaw \<Rightarrow>
                       (case py_index widths idx of
                          Inl e \<Rightarrow> Inl e
                        | Inr w \<Rightarrow>
                            (case np_max outcomes of
                               Inl e \<Rightarrow> Inl e
                             | Inr label \<Rightarrow>
                                 Inr ((Grasp (Transform (rot_mul R (from_euler_z yaw)) pos) w,
                                       label), s')))))
           else
             (case np_max outcomes of
                Inl e \<Rightarrow> Inl e
              | Inr label \<Rightarrow> Inr ((Grasp (Transform rot_identity pos) 0, label), s')))"


section \<open>Label volume builder\<close>

type_synonym voxel = "int \<times> int \<times> int"

text \<open>
  The reconstruction volume is external; \<open>store_sample\<close> reads its voxel size, its
  resolution and its grid.  A numpy array over the grid is a function from voxel
  indices to values, zero where nothing was written; only indices inside the grid are
  ever written.  Values are reals: the cast to 32-bit floats is left out.
\<close>

record tsdf_volume =
  voxel_size :: real
  resolution :: int
  get_volume :: "voxel \<Rightarrow> real"

record volumes =
  qual_vol :: "voxel \<Rightarrow> real"
  rot_vol0 :: "voxel \<Rightarrow> real \<times> real \<times> real \<times> real"
  rot_vol1 :: "voxel \<Rightarrow> real \<times> real \<times> real \<times> real"
  width_vol :: "voxel \<Rightarrow> real"
  mask :: "voxel \<Rightarrow> real"

record sample = volumes +
  tsdf_vol :: "voxel \<Rightarrow> real"

definition zero_volumes :: volumes where
  "zero_volumes =
     \<lparr>qual_vol = (\<lambda>_. 0), rot_vol0 = (\<lambda>_. (0, 0, 0, 0)), rot_vol1 = (\<lambda>_. (0, 0, 0, 0)),
      width_vol = (\<lambda>_. 0), mask = (\<lambda>_. 0)\<rparr>"

definition label2quality :: "int \<Rightarrow> int \<Rightarrow> real" where
  "label2quality success label = (if label = success then 1 else 0)"

definition np_round :: "real \<Rightarrow> int" where
  \<comment> \<open>\<open>np.round\<close> followed by the cast to an integer: a tie goes to the even
      neighbour\<close>
  "np_round r =
     (let f = \<lfloor>r\<rfloor>; d = r - of_int f
      in if d < 1 / 2 then f else if 1 / 2 < d then f + 1 else if even f then f else f + 1)"

definition voxel_index :: "grasp \<Rightarrow> voxel" where
  \<comment> \<open>\<open>np.round(grasp.pose.translation).astype(np.int)\<close>\<close>
  "voxel_index g =
     (case translation (pose g) of (t1, t2, t3) \<Rightarrow> (np_round t1, np_round t2, np_round t3))"

definition out_of_grid :: "int \<Rightarrow> voxel \<Rightarrow> bool" where
  \<comment> \<open>\<open>np.any(index < 0) or np.any(index > tsdf.resolution - 1)\<close>\<close>
  "out_of_grid res index =
     (case index of (i, j, k) \<Rightarrow>
        (i < 0 \<or> j < 0 \<or> k < 0) \<or> (i > res - 1 \<or> j > res - 1 \<or> k > res - 1))"

definition store_grasp :: "int \<Rightarrow> tsdf_volume \<Rightarrow> volumes \<Rightarrow> grasp \<times> int \<Rightarrow> volumes" where
  \<comment> \<open>one iteration of the loop of \<open>store_sample\<close>; \<open>R\<close> is the half turn about z\<close>
  "store_grasp success tsdf vols p =
     (case p of (grasp, label) \<Rightarrow>
        let R = from_rotvec (vscale pi (0, 0, 1));
            grasp = to_voxel_coordinates grasp (voxel_size tsdf);
            index = voxel_index grasp
        in if out_of_grid (resolution tsdf) index then vols
           else vols
             \<lparr>qual_vol := (qual_vol vols)(index := label2quality success label),
              rot_vol0 := (rot_vol0 vols)(index := as_quat (rotation (pose grasp))),
              rot_vol1 := (rot_vol1 vols)(index := as_quat (rot_mul (rotation (pose grasp)) R)),
              width_vol := (width_vol vols)(index := width grasp),
              mask := (mask vols)(index := 1)\<rparr>)"

definition store_sample :: "int \<Rightarrow> tsdf_volume \<Rightarrow> grasp list \<Rightarrow> int list \<Rightarrow> sample" where
  \<comment> \<open>the archive that \<open>np.savez_compressed\<close> writes\<close>
  "store_sample success tsdf grasps labels =
     volumes.extend (foldl (store_grasp success tsdf) zero_volumes (zip grasps labels))
       \<lparr>tsdf_vol = get_volume tsdf\<rparr>"


section \<open>Scene generator: filling the candidate pool\<close>

definition draw_candidate ::
  "int \<Rightarrow> 'g random_source \<Rightarrow> 's simulation \<Rightarrow> vec3 list \<Rightarrow> vec3 list \<Rightarrow> real \<Rightarrow>
   'g \<times> 's \<Rightarrow> py_error + ((grasp \<times> int) \<times> ('g \<times> 's))" where
  \<comment> \<open>\<open>sample_grasp_point\<close> then \<open>evaluate_grasp_point\<close> with its default of 12 rotations\<close>
  "draw_candidate success rng sim points normals finger_depth w =
     (case w of (g, s) \<Rightarrow>
        case sample_grasp_point rng g points normals finger_depth of
          Inl e \<Rightarrow> Inl e
        | Inr ((point, normal), g') \<Rightarrow>
            (case evaluate_grasp_point success sim s point normal 12 of
               Inl e \<Rightarrow> Inl e
             | Inr (candidate, s') \<Rightarrow> Inr (candidate, (g', s'))))"

fun fill_pool ::
  "nat \<Rightarrow> int \<Rightarrow> int \<Rightarrow> ('w \<Rightarrow> py_error + ((grasp \<times> int) \<times> 'w)) \<Rightarrow> 'w \<Rightarrow>
   grasp list \<Rightarrow> int list \<Rightarrow> int \<Rightarrow> (py_error + ((grasp list \<times> int list) \<times> 'w)) option" where
  \<comment> \<open>\<open>while len(grasps) < num_grasps_per_scene\<close>.  The loop has no bound of its own:
      the first argument is the number of iterations allowed, and \<open>None\<close> says that
      they did not suffice.  \<open>draw\<close> produces the next evaluated candidate.\<close>
  "fill_pool 0 success n draw w grasps labels num_negatives =
     (if int (length grasps) < n then None else Some (Inr ((grasps, labels), w)))"
| "fill_pool (Suc fuel) success n draw w grasps labels num_negatives =
     (if int (length grasps) < n then
        (case draw w of
           Inl e \<Rightarrow> Some (Inl e)
         | Inr ((grasp, label), w') \<Rightarrow>
             if label = success \<or> num_negatives < n div 2
             then fill_pool fuel success n draw w' (grasps @ [grasp]) (labels @ [label])
                    (num_negatives + (if label = success then 0 else 1))
             else fill_pool fuel success n draw w' grasps labels num_negatives)
      else Some (Inr ((grasps, labels), w)))"

definition generate_scene ::
  "nat \<Rightarrow> int \<Rightarrow> int \<Rightarrow> 'g random_source \<Rightarrow> 's simulation \<Rightarrow> tsdf_volume \<Rightarrow>
   vec3 list \<Rightarrow> vec3 list \<Rightarrow> real \<Rightarrow> 'g \<times> 's \<Rightarrow> (py_error + (sample option \<times> ('g \<times> 's))) option" where
  \<comment> \<open>the body of the loop over scenes from the empty-cloud test on: \<open>Inr (None, _)\<close> is
      a skipped scene, \<open>Inr (Some a, _)\<close> the archive handed to the serializer\<close>
  "generate_scene fuel success n rng sim tsdf points normals finger_depth w =
     (if points = [] then Some (Inr (None, w))
      else
        case fill_pool fuel success n
               (draw_candidate success rng sim points normals finger_depth) w [] [] 0 of
          None \<Rightarrow> None
        | Some (Inl e) \<Rightarrow> Some (Inl e)
        | Some (Inr ((grasps, labels), w')) \<Rightarrow>
            Some (Inr (Some (store_sample success tsdf grasps labels), w')))"


section \<open>Specification-level definitions\<close>

subsection \<open>Peak selection as the specification words it\<close>

text \<open>
  The specification selects the yaw from the sequence of success flags alone: all
  maximal contiguous runs of successes, among them the first of greatest width, and of
  that run the midpoint.  A run is a pair (start index, width).
\<close>

function success_runs :: "nat \<Rightarrow> bool list \<Rightarrow> (nat \<times> nat) list" where
  \<comment> \<open>the maximal runs of \<open>True\<close> in order; \<open>k\<close> is the index of the head of the list\<close>
  "success_runs k [] = []"
| "success_runs k (False # bs) = success_runs (Suc k) bs"
| "success_runs k (True # bs) =
     (k, Suc (length (takeWhile (\<lambda>b. b) bs)))
       # success_runs (k + Suc (length (takeWhile (\<lambda>b. b) bs))) (dropWhile (\<lambda>b. b) bs)"
  by pat_completeness auto
termination
  by (relation "measure (\<lambda>(k, bs). length bs)") (auto simp: less_Suc_eq_le length_dropWhile_le)

definition first_widest :: "(nat \<times> nat) list \<Rightarrow> (nat \<times> nat) option" where
  \<comment> \<open>the first run whose width is the greatest width of all runs\<close>
  "first_widest runs = find (\<lambda>r. snd r = Max (set (map snd runs))) runs"

definition run_midpoint :: "nat \<times> nat \<Rightarrow> nat" where
  \<comment> \<open>the middle index of a run, the lower one of the two for an even width\<close>
  "run_midpoint r = (case r of (start, w) \<Rightarrow> (start + (start + w - 1)) div 2)"

definition spec_peak_index :: "bool list \<Rightarrow> nat option" where
  "spec_peak_index bs = map_option run_midpoint (first_widest (success_runs 0 bs))"

subsection \<open>Plateaus of a padded indicator\<close>

definition indicator :: "bool list \<Rightarrow> real list" where
  "indicator bs = map (\<lambda>b. if b then 1 else 0) bs"

definition binary_signal :: "('a::linordered_field) list \<Rightarrow> bool" where
  "binary_signal x = (\<forall>v \<in> set x. v = 0 \<or> v = 1)"

definition is_plateau_peak :: "('a::linorder) list \<Rightarrow> nat \<times> nat \<times> nat \<Rightarrow> bool" where
  \<comment> \<open>(midpoint, left edge, right edge) of a flat stretch inside the signal that is
      higher than the samples next to it on both sides\<close>
  "is_plateau_peak x p =
     (case p of (m, l, r) \<Rightarrow>
        1 \<le> l \<and> l \<le> r \<and> r + 1 < length x \<and> m = (l + r) div 2 \<and>
        x ! (l - 1) < x ! l \<and> (\<forall>j. l \<le> j \<and> j \<le> r \<longrightarrow> x ! j = x ! l) \<and> x ! (r + 1) < x ! l)"

definition plateau_width :: "nat \<times> nat \<times> nat \<Rightarrow> nat" where
  "plateau_width p = (case p of (m, l, r) \<Rightarrow> r - l + 1)"

definition peak_of_run :: "nat \<times> nat \<Rightarrow> nat \<times> nat \<times> nat" where
  \<comment> \<open>the plateau of the padded signal that belongs to a run of the unpadded flags\<close>
  "peak_of_run r = (case r of (start, w) \<Rightarrow> ((start + 1 + (start + w)) div 2, start + 1, start + w))"

subsection \<open>What a sweep observes and what the evaluator returns\<close>

definition sweep_results ::
  "'s simulation \<Rightarrow> 's \<Rightarrow> vec3 \<Rightarrow> vec3 \<Rightarrow> int \<Rightarrow> (int \<times> real) list" where
  \<comment> \<open>the (outcome, width) of every yaw attempt that \<open>evaluate_grasp_point\<close> makes\<close>
  "sweep_results sim s pos normal num_rotations =
     fst (sweep sim (from_dcm (grasp_frame normal)) pos (linspace 0 pi (nat num_rotations)) s)"

definition sweep_outcomes :: "'s simulation \<Rightarrow> 's \<Rightarrow> vec3 \<Rightarrow> vec3 \<Rightarrow> int \<Rightarrow> int list" where
  "sweep_outcomes sim s pos normal num_rotations =
     map fst (sweep_results sim s pos normal num_rotations)"

definition returned_label :: "py_error + ((grasp \<times> int) \<times> 's) \<Rightarrow> int option" where
  "returned_label res = (case res of Inl e \<Rightarrow> None | Inr ((g, label), s) \<Rightarrow> Some label)"

definition returned_grasp :: "py_error + ((grasp \<times> int) \<times> 's) \<Rightarrow> grasp option" where
  "returned_grasp res = (case res of Inl e \<Rightarrow> None | Inr ((g, label), s) \<Rightarrow> Some g)"

subsection \<open>The candidate pool\<close>

definition count_negatives :: "int \<Rightarrow> int list \<Rightarrow> int" where
  "count_negatives success labels = int (length (filter (\<lambda>label. label \<noteq> success) labels))"

definition pool_invariant :: "int \<Rightarrow> int \<Rightarrow> grasp list \<Rightarrow> int list \<Rightarrow> int \<Rightarrow> bool" where
  \<comment> \<open>what every iteration of the pool loop keeps true of its three variables\<close>
  "pool_invariant success n grasps labels num_negatives =
     (length labels = length grasps \<and> int (length grasps) \<le> n \<and>
      num_negatives = count_negatives success labels \<and> num_negatives \<le> n div 2 \<and>
      (\<forall>i < length labels. labels ! i \<noteq> success \<longrightarrow>
         count_negatives success (take i labels) < n div 2))"

subsection \<open>The voxel of a grasp\<close>

definition voxel_of :: "tsdf_volume \<Rightarrow> grasp \<Rightarrow> voxel" where
  \<comment> \<open>the index that \<open>store_sample\<close> computes for a grasp of the pool\<close>
  "voxel_of tsdf g = voxel_index (to_voxel_coordinates g (voxel_size tsdf))"

definition half_turn_z :: rotation where
  "half_turn_z = Quat 0 0 1 0"

subsection \<open>Collaborators and inputs of the worked examples\<close>

definition constant_sim :: "int \<Rightarrow> real \<Rightarrow> unit simulation" where
  \<comment> \<open>a simulation in which every attempt has the same outcome and width\<close>
  "constant_sim outcome w =
     \<lparr>restore_state = (\<lambda>s. s), test_grasp = (\<lambda>s T. ((outcome, w), s))\<rparr>"

definition yaw_probe_sim :: "unit simulation" where
  \<comment> \<open>a simulation whose outcome depends on the pose alone: code 0 for a pose whose
      quaternion has scalar part 1, code 1 for every other pose\<close>
  "yaw_probe_sim =
     \<lparr>restore_state = (\<lambda>s. s),
      test_grasp = (\<lambda>s T. ((if qw (rotation T) = 1 then 0 else 1, 0), s))\<rparr>"

definition first_low_random :: "unit random_source" where
  \<comment> \<open>a random source that always draws the least value of the range\<close>
  "first_low_random = \<lparr>randint = (\<lambda>g n. (0, g)), uniform = (\<lambda>g low high. (low, g))\<rparr>"

definition scripted_draw :: "int list \<Rightarrow> nat \<Rightarrow> py_error + ((grasp \<times> int) \<times> nat)" where
  \<comment> \<open>a candidate source that yields the labels of a script one after the other\<close>
  "scripted_draw script w =
     (if w < length script
      then Inr ((Grasp (Transform rot_identity (0, 0, 0)) 0, script ! w), w + 1)
      else Inl IndexError)"

definition test_tsdf :: tsdf_volume where
  \<comment> \<open>a grid of 40 voxels of 1 cm per axis\<close>
  "test_tsdf = \<lparr>voxel_size = 1 / 100, resolution = 40, get_volume = (\<lambda>_. 0)\<rparr>"

definition grasp_at :: "vec3 \<Rightarrow> real \<Rightarrow> grasp" where
  "grasp_at p w = Grasp (Transform rot_identity p) w"


section \<open>The peak finder on success indicators\<close>


subsection \<open>Local maxima are plateaus\<close>

lemma plateau_end_flat:
  assumes "i \<le> i_ahead"
    and "\<And>j. i \<le> j \<Longrightarrow> j < i_ahead \<Longrightarrow> x ! j = x ! i"
    and "i \<le> k" and "k < plateau_end x i i_ahead"
  shows "x ! k = x ! i"
  using assms
proof (induction x i i_ahead rule: plateau_end.induct)
  case (1 x i i_ahead)
  show ?case
  proof (cases "i_ahead < length x - 1 \<and> x ! i_ahead = x ! i")
    case True
    have flat: "x ! j = x ! i" if "i \<le> j" "j < i_ahead + 1" for j
    proof (cases "j = i_ahead")
      case True
      then show ?thesis using \<open>i_ahead < length x - 1 \<and> x ! i_ahead = x ! i\<close> by blast
    next
      case False
      then have "j < i_ahead" using that by arith
      then show ?thesis using "1.prems"(2) that(1) by blast
    qed
    have step: "plateau_end x i i_ahead = plateau_end x i (i_ahead + 1)"
      using True by (subst plateau_end.simps) simp
    have "i \<le> i_ahead + 1" using "1.prems"(1) by arith
    moreover have "k < plateau_end x i (i_ahead + 1)" using "1.prems"(4) step by arith
    ultimately show ?thesis using "1.IH" [OF True] flat "1.prems"(3) by blast
  next
    case False
    then have "plateau_end x i i_ahead = i_ahead" by (subst plateau_end.simps) auto
    then show ?thesis using "1.prems" by metis
  qed
qed

lemma plateau_end_le:
  "i_ahead \<le> length x - 1 \<Longrightarrow> plateau_end x i i_ahead \<le> length x - 1"
proof (induction x i i_ahead rule: plateau_end.induct)
  case (1 x i i_ahead)
  show ?case
  proof (cases "i_ahead < length x - 1 \<and> x ! i_ahead = x ! i")
    case True
    then have "plateau_end x i (i_ahead + 1) \<le> length x - 1" using "1.IH" by simp
    then show ?thesis using True by (subst plateau_end.simps) simp
  next
    case False
    then show ?thesis using "1.prems" by (subst plateau_end.simps) auto
  qed
qed

lemma local_maxima_loop_sound:
  "1 \<le> i \<Longrightarrow> p \<in> set (local_maxima_loop x i) \<Longrightarrow> is_plateau_peak x p \<and> i \<le> fst (snd p)"
proof (induction x i rule: local_maxima_loop.induct)
  case (1 x i)
  define e where "e = plateau_end x i (i + 1)"
  have e_ge: "i + 1 \<le> e" unfolding e_def by (rule plateau_end_ge)
  show ?case
  proof (cases "i < length x - 1")
    case False
    then have "local_maxima_loop x i = []" by (subst local_maxima_loop.simps) simp
    with "1.prems" show ?thesis by simp
  next
    case in_range: True
    show ?thesis
    proof (cases "x ! (i - 1) < x ! i")
      case False
      then have eq: "local_maxima_loop x i = local_maxima_loop x (i + 1)"
        using in_range by (subst local_maxima_loop.simps) simp
      have "is_plateau_peak x p \<and> i + 1 \<le> fst (snd p)"
        using "1.IH"(3) [OF in_range False] "1.prems" eq by simp
      then show ?thesis by simp
    next
      case rising: True
      show ?thesis
      proof (cases "x ! e < x ! i")
        case False
        then have eq: "local_maxima_loop x i = local_maxima_loop x (i + 1)"
          using in_range rising by (subst local_maxima_loop.simps) (simp add: e_def Let_def)
        have "is_plateau_peak x p \<and> i + 1 \<le> fst (snd p)"
          using "1.IH"(2) [OF in_range rising e_def False] "1.prems" eq by simp
        then show ?thesis by simp
      next
        case falling: True
        then have eq: "local_maxima_loop x i =
            ((i + (e - 1)) div 2, i, e - 1) # local_maxima_loop x (e + 1)"
          using in_range rising by (subst local_maxima_loop.simps) (simp add: e_def Let_def)
        have e_le: "e \<le> length x - 1"
          unfolding e_def using in_range by (intro plateau_end_le) simp
        have flat: "x ! j = x ! i" if "i \<le> j" "j \<le> e - 1" for j
        proof (rule plateau_end_flat [where i_ahead = "i + 1"])
          show "i \<le> i + 1" by simp
          show "x ! j' = x ! i" if "i \<le> j'" "j' < i + 1" for j'
          proof -
            have "j' = i" using that by arith
            then show ?thesis by simp
          qed
          show "i \<le> j" by fact
          show "j < plateau_end x i (i + 1)" using that(2) e_ge unfolding e_def by arith
        qed
        have e1: "e - 1 + 1 = e" using e_ge by simp
        have b1: "1 \<le> i" "i \<le> e - 1" "e < length x" using "1.prems"(1) e_ge e_le in_range by arith+
        have here: "is_plateau_peak x ((i + (e - 1)) div 2, i, e - 1)"
          unfolding is_plateau_peak_def prod.case e1
          using b1 rising falling flat by blast
        from "1.prems"(2) eq
        consider "p = ((i + (e - 1)) div 2, i, e - 1)" | "p \<in> set (local_maxima_loop x (e + 1))"
          by auto
        then show ?thesis
        proof cases
          case 1
          then show ?thesis using here by simp
        next
          case 2
          have "is_plateau_peak x p \<and> e + 1 \<le> fst (snd p)"
            using "1.IH"(1) [OF in_range rising e_def falling _ 2] by simp
          then show ?thesis using e_ge by simp
        qed
      qed
    qed
  qed
qed

lemma local_maxima_1d_sound:
  "p \<in> set (local_maxima_1d x) \<Longrightarrow> is_plateau_peak x p"
  unfolding local_maxima_1d_def using local_maxima_loop_sound [of 1 p x] by simp


subsection \<open>Prominence and width of a plateau of ones\<close>

lemma left_base_loop_plateau:
  assumes "\<And>j. l \<le> j \<Longrightarrow> j \<le> m \<Longrightarrow> x ! j = x ! m"
    and "int l - 1 \<le> i" and "i \<le> int m"
  shows "left_base_loop x m i (x ! m) lb = left_base_loop x m (int l - 1) (x ! m) lb"
  using assms(2,3)
proof (induction "nat (i - int l + 1)" arbitrary: i)
  case 0
  then have "i = int l - 1" by arith
  then show ?case by simp
next
  case (Suc n)
  then have i: "int l \<le> i" "0 \<le> i" by arith+
  have "x ! nat i = x ! m" using assms(1) [of "nat i"] i Suc.prems by simp
  then have "left_base_loop x m i (x ! m) lb = left_base_loop x m (i - 1) (x ! m) lb"
    using i by (subst left_base_loop.simps) simp
  moreover have "left_base_loop x m (i - 1) (x ! m) lb = left_base_loop x m (int l - 1) (x ! m) lb"
    using Suc.hyps(2) Suc.prems i by (intro Suc.hyps(1)) arith+
  ultimately show ?case by simp
qed

lemma left_base_loop_floor:
  assumes "\<And>j. j < length x \<Longrightarrow> lm \<le> x ! j" and "i < int (length x)"
  shows "left_base_loop x m i lm lb = (lm, lb)"
  using assms(2)
proof (induction "nat (i + 1)" arbitrary: i)
  case 0
  then have "\<not> 0 \<le> i" by arith
  then show ?case by (subst left_base_loop.simps) simp
next
  case (Suc n)
  then have i: "0 \<le> i" by arith
  then have "nat i < length x" using Suc.prems by arith
  then have ge: "\<not> x ! nat i < lm" using assms(1) [of "nat i"] by simp
  have rec: "left_base_loop x m (i - 1) lm lb = (lm, lb)"
    using Suc.hyps(2) Suc.prems by (intro Suc.hyps(1)) arith+
  show ?case using ge rec by (subst left_base_loop.simps) simp
qed

lemma right_base_loop_plateau:
  assumes "\<And>j. m \<le> j \<Longrightarrow> j \<le> r \<Longrightarrow> x ! j = x ! m"
    and "m \<le> i" and "i \<le> r + 1" and "r < length x"
  shows "right_base_loop x m i (x ! m) rb = right_base_loop x m (r + 1) (x ! m) rb"
  using assms(2,3)
proof (induction "r + 1 - i" arbitrary: i)
  case 0
  then have "i = r + 1" by arith
  then show ?case by simp
next
  case (Suc n)
  then have i: "i \<le> r" "i < length x" using assms(4) by arith+
  have "x ! i = x ! m" using assms(1) [of i] i Suc.prems by simp
  then have "right_base_loop x m i (x ! m) rb = right_base_loop x m (i + 1) (x ! m) rb"
    using i by (subst right_base_loop.simps) simp
  moreover have "right_base_loop x m (i + 1) (x ! m) rb = right_base_loop x m (r + 1) (x ! m) rb"
    using Suc.hyps(2) Suc.prems i by (intro Suc.hyps(1)) arith+
  ultimately show ?case by simp
qed

lemma right_base_loop_floor:
  assumes "\<And>j. j < length x \<Longrightarrow> rm \<le> x ! j"
  shows "right_base_loop x m i rm rb = (rm, rb)"
proof (induction "length x - i" arbitrary: i)
  case 0
  then have "\<not> i < length x" by arith
  then show ?case by (subst right_base_loop.simps) simp
next
  case (Suc n)
  then have i: "i < length x" by arith
  then have ge: "\<not> x ! i < rm" using assms(1) [of i] by simp
  have rec: "right_base_loop x m (i + 1) rm rb = (rm, rb)"
    using Suc.hyps(2) by (intro Suc.hyps(1)) arith
  show ?case using ge rec by (subst right_base_loop.simps) simp
qed

lemma left_ip_loop_plateau:
  assumes "\<And>j. l \<le> j \<Longrightarrow> j \<le> m \<Longrightarrow> h < x ! j"
    and "1 \<le> l" and "l - 1 \<le> i" and "i \<le> m"
  shows "left_ip_loop x (l - 1) h i = l - 1"
  using assms(3,4)
proof (induction i)
  case 0
  then show ?case by (subst left_ip_loop.simps) simp
next
  case (Suc i)
  show ?case
  proof (cases "l \<le> Suc i")
    case True
    then have "h < x ! Suc i" using assms(1) Suc.prems by simp
    moreover have "l - 1 < Suc i" using True assms(2) by arith
    moreover have "left_ip_loop x (l - 1) h i = l - 1"
      using True Suc.prems by (intro Suc.IH) arith+
    ultimately show ?thesis by (subst left_ip_loop.simps) simp
  next
    case False
    then have "Suc i = l - 1" using Suc.prems by arith
    then show ?thesis by (subst left_ip_loop.simps) simp
  qed
qed

lemma right_ip_loop_plateau:
  assumes "\<And>j. m \<le> j \<Longrightarrow> j \<le> r \<Longrightarrow> h < x ! j"
    and "m \<le> i" and "i \<le> r + 1"
  shows "right_ip_loop x (r + 1) h i = r + 1"
  using assms(2,3)
proof (induction "r + 1 - i" arbitrary: i)
  case 0
  then have "i = r + 1" by arith
  then show ?case by (subst right_ip_loop.simps) simp
next
  case (Suc n)
  then have i: "i \<le> r" "i < r + 1" by arith+
  have "h < x ! i" using assms(1) [of i] i Suc.prems by simp
  moreover have "right_ip_loop x (r + 1) h (i + 1) = r + 1"
    using Suc.hyps(2) Suc.prems i by (intro Suc.hyps(1)) arith+
  ultimately show ?case using i by (subst right_ip_loop.simps) simp
qed

lemma binary_plateau_values:
  fixes x :: "('a::linordered_field) list"
  assumes "binary_signal x" and "is_plateau_peak x (m, l, r)"
  shows "1 \<le> l" "l \<le> m" "m \<le> r" "r + 1 < length x"
    "x ! (l - 1) = 0" "x ! (r + 1) = 0" "\<And>j. l \<le> j \<Longrightarrow> j \<le> r \<Longrightarrow> x ! j = 1"
    "\<And>j. j < length x \<Longrightarrow> 0 \<le> x ! j" "\<And>j. j < length x \<Longrightarrow> x ! j \<le> 1"
proof -
  have bin: "x ! j = 0 \<or> x ! j = 1" if "j < length x" for j
    using assms(1) that unfolding binary_signal_def by (meson nth_mem)
  have pk: "1 \<le> l" "l \<le> r" "r + 1 < length x" "m = (l + r) div 2"
    "x ! (l - 1) < x ! l" "x ! (r + 1) < x ! l"
    using assms(2) unfolding is_plateau_peak_def prod.case by blast+
  have flat: "x ! j = x ! l" if "l \<le> j" "j \<le> r" for j
    using assms(2) that unfolding is_plateau_peak_def prod.case by blast
  show "1 \<le> l" "r + 1 < length x" by fact+
  show "l \<le> m" "m \<le> r" using pk(2,4) by arith+
  have rng: "l < length x" "l - 1 < length x" using pk(1,2,3) by arith+
  have l1: "x ! l = 1" and l0: "x ! (l - 1) = 0"
    using bin [OF rng(1)] bin [OF rng(2)] pk(5) by auto
  show "x ! (l - 1) = 0" by fact
  show "x ! (r + 1) = 0" using bin [OF pk(3)] pk(6) l1 by auto
  show "x ! j = 1" if "l \<le> j" "j \<le> r" for j using flat [OF that] l1 by simp
  show "0 \<le> x ! j" if "j < length x" for j using bin [OF that] by auto
  show "x ! j \<le> 1" if "j < length x" for j using bin [OF that] by auto
qed

lemma peak_prominence_binary:
  fixes x :: "('a::linordered_field) list"
  assumes "binary_signal x" and "is_plateau_peak x (m, l, r)"
  shows "peak_prominence x m = Inr (1, l - 1, r + 1)"
proof -
  note v = binary_plateau_values [OF assms]
  have xm: "x ! m = 1" using v(7) [of m] v(2,3) by simp
  have flatm: "x ! j = x ! m" if "l \<le> j" "j \<le> r" for j using v(7) [OF that] xm by simp
  have "left_base_loop x m (int m) (x ! m) m = left_base_loop x m (int l - 1) (x ! m) m"
    using v(2,3) by (intro left_base_loop_plateau [where l = l] flatm) simp_all
  also have "\<dots> = left_base_loop x m (int l - 1 - 1) 0 (l - 1)"
    using v(1,5) xm by (subst left_base_loop.simps) (simp add: nat_diff_distrib)
  also have "\<dots> = (0, l - 1)"
    using v(8) v(1,2,3,4) by (intro left_base_loop_floor) simp_all
  finally have left: "left_base_loop x m (int m) (x ! m) m = (0, l - 1)" .
  have "right_base_loop x m m (x ! m) m = right_base_loop x m (r + 1) (x ! m) m"
    using v(2,3,4) by (intro right_base_loop_plateau flatm) simp_all
  also have "\<dots> = right_base_loop x m (r + 1 + 1) 0 (r + 1)"
    using v(4,6) xm by (subst right_base_loop.simps) simp
  also have "\<dots> = (0, r + 1)"
    using v(8) by (intro right_base_loop_floor) simp_all
  finally have right: "right_base_loop x m m (x ! m) m = (0, r + 1)" .
  have "m < length x" using v(3,4) by arith
  then show ?thesis unfolding peak_prominence_def using left right xm by simp
qed

lemma peak_width_binary:
  fixes x :: "('a::linordered_field) list"
  assumes "binary_signal x" and "is_plateau_peak x (m, l, r)"
  shows "peak_width x (1 / 2) (m, 1, l - 1, r + 1) = Inr (of_nat (r - l + 1))"
proof -
  note v = binary_plateau_values [OF assms]
  have xm: "x ! m = 1" using v(7) [of m] v(2,3) by simp
  have above: "(1 / 2 :: 'a) < x ! j" if "l \<le> j" "j \<le> r" for j using v(7) [OF that] by simp
  have li: "left_ip_loop x (l - 1) (1 / 2) m = l - 1"
    using v(1,2,3) by (intro left_ip_loop_plateau above) simp_all
  have ri: "right_ip_loop x (r + 1) (1 / 2) m = r + 1"
    using v(2,3) by (intro right_ip_loop_plateau above) simp_all
  have ok: "l - 1 \<le> m \<and> m \<le> r + 1 \<and> r + 1 < length x" using v(1,2,3,4) by arith
  have l1: "x ! (l - 1 + 1) = 1" using v(7) [of l] v(1,2,3) by simp
  have r1: "x ! (r + 1 - 1) = 1" using v(7) [of r] v(2,3) by simp
  have h: "x ! m - 1 * (1 / 2) = (1 / 2 :: 'a)" using xm by simp
  have arith: "(of_nat (r + 1) :: 'a) - 1 / 2 - (of_nat (l - 1) + 1 / 2) = of_nat (r - l + 1)"
    using v(1,2,3) by (simp add: of_nat_diff field_simps)
  show ?thesis
    unfolding peak_width_def prod.case Let_def h li ri
    using ok v(5,6) l1 r1 arith by simp
qed

lemma traverse_map_Inr:
  "(\<And>p. p \<in> set ps \<Longrightarrow> f (g p) = Inr (h p)) \<Longrightarrow> traverse f (map g ps) = Inr (map h ps)"
  by (induction ps) simp_all

lemma find_peaks_binary:
  fixes x :: "('a::linordered_field) list"
  assumes "binary_signal x"
  shows "find_peaks x 1 1 =
           Inr (map fst (local_maxima_1d x), map (\<lambda>p. of_nat (plateau_width p)) (local_maxima_1d x))"
proof -
  define lm where "lm = local_maxima_1d x"
  have pk: "is_plateau_peak x (m, l, r)" if "(m, l, r) \<in> set lm" for m l r
    using that unfolding lm_def by (rule local_maxima_1d_sound)
  have high: "1 \<le> x ! fst p" if "p \<in> set lm" for p
  proof -
    obtain m l r where p: "p = (m, l, r)" by (cases p) auto
    note v = binary_plateau_values [OF assms pk [OF that [unfolded p]]]
    show ?thesis using v(7) [of m] v(2,3) p by simp
  qed
  have f1: "filter (\<lambda>p. 1 \<le> x ! p) (map fst lm) = map fst lm"
    using high by (simp add: filter_map o_def)
  have proms: "traverse (peak_prominence x) (map fst lm)
      = Inr (map (\<lambda>p. (1, fst (snd p) - 1, snd (snd p) + 1)) lm)"
  proof (rule traverse_map_Inr)
    fix p assume "p \<in> set lm"
    obtain m l r where p: "p = (m, l, r)" by (cases p) auto
    show "peak_prominence x (fst p) = Inr (1, fst (snd p) - 1, snd (snd p) + 1)"
      using peak_prominence_binary [OF assms pk [OF \<open>p \<in> set lm\<close> [unfolded p]]] p by simp
  qed
  have z1: "zip (map fst lm) (map (\<lambda>p. (1::'a, fst (snd p) - 1, snd (snd p) + 1)) lm)
      = map (\<lambda>p. (fst p, 1, fst (snd p) - 1, snd (snd p) + 1)) lm"
    by (induction lm) simp_all
  have widths: "traverse (peak_width x (1 / 2))
       (map (\<lambda>p. (fst p, 1, fst (snd p) - 1, snd (snd p) + 1)) lm)
      = Inr (map (\<lambda>p. of_nat (plateau_width p)) lm)"
  proof (rule traverse_map_Inr)
    fix p assume "p \<in> set lm"
    obtain m l r where p: "p = (m, l, r)" by (cases p) auto
    show "peak_width x (1 / 2) (fst p, 1, fst (snd p) - 1, snd (snd p) + 1)
        = Inr (of_nat (plateau_width p))"
      using peak_width_binary [OF assms pk [OF \<open>p \<in> set lm\<close> [unfolded p]]] p
      by (simp add: plateau_width_def)
  qed
  have z2: "zip (map fst lm) (map (\<lambda>p. (of_nat (plateau_width p) :: 'a)) lm)
      = map (\<lambda>p. (fst p, of_nat (plateau_width p))) lm"
    by (induction lm) simp_all
  have wide: "(1::'a) \<le> of_nat (plateau_width p)" for p
    by (cases p) (simp add: plateau_width_def)
  have f2: "filter (\<lambda>(p, w). (1::'a) \<le> w) (map (\<lambda>p. (fst p, of_nat (plateau_width p))) lm)
      = map (\<lambda>p. (fst p, of_nat (plateau_width p))) lm"
    using wide by (simp add: filter_map o_def)
  show ?thesis
    unfolding find_peaks_def Let_def lm_def [symmetric] f1 proms sum.case z1 widths z2 f2
    by (simp add: o_def)
qed


subsection \<open>The first index of the greatest width\<close>

lemma argmax_loop_first_max:
  assumes "b < length pre" and "bv = pre ! b"
    and "\<And>j. j < length pre \<Longrightarrow> pre ! j \<le> bv"
    and "\<And>j. j < b \<Longrightarrow> pre ! j < bv"
  shows "argmax_loop ws (length pre) b bv < length (pre @ ws) \<and>
         (\<forall>j < length (pre @ ws). (pre @ ws) ! j \<le> (pre @ ws) ! argmax_loop ws (length pre) b bv) \<and>
         (\<forall>j < argmax_loop ws (length pre) b bv. (pre @ ws) ! j < (pre @ ws) ! argmax_loop ws (length pre) b bv)"
  using assms
proof (induction ws arbitrary: pre b bv)
  case Nil
  then show ?case by simp
next
  case (Cons w ws)
  have len: "length (pre @ [w]) = length pre + 1" by simp
  show ?case
  proof (cases "bv < w")
    case True
    have "argmax_loop ws (length (pre @ [w])) (length pre) w < length ((pre @ [w]) @ ws) \<and>
         (\<forall>j < length ((pre @ [w]) @ ws). ((pre @ [w]) @ ws) ! j \<le> ((pre @ [w]) @ ws) ! argmax_loop ws (length (pre @ [w])) (length pre) w) \<and>
         (\<forall>j < argmax_loop ws (length (pre @ [w])) (length pre) w. ((pre @ [w]) @ ws) ! j < ((pre @ [w]) @ ws) ! argmax_loop ws (length (pre @ [w])) (length pre) w)"
    proof (rule Cons.IH)
      show "length pre < length (pre @ [w])" by simp
      show "w = (pre @ [w]) ! length pre" by simp
      show "(pre @ [w]) ! j \<le> w" if "j < length (pre @ [w])" for j
        using that Cons.prems(3) [of j] True by (cases "j < length pre") (auto simp: nth_append)
      show "(pre @ [w]) ! j < w" if "j < length pre" for j
        using that Cons.prems(3) [of j] True by (auto simp: nth_append)
    qed
    then show ?thesis using True by simp
  next
    case False
    have "argmax_loop ws (length (pre @ [w])) b bv < length ((pre @ [w]) @ ws) \<and>
         (\<forall>j < length ((pre @ [w]) @ ws). ((pre @ [w]) @ ws) ! j \<le> ((pre @ [w]) @ ws) ! argmax_loop ws (length (pre @ [w])) b bv) \<and>
         (\<forall>j < argmax_loop ws (length (pre @ [w])) b bv. ((pre @ [w]) @ ws) ! j < ((pre @ [w]) @ ws) ! argmax_loop ws (length (pre @ [w])) b bv)"
    proof (rule Cons.IH)
      show "b < length (pre @ [w])" using Cons.prems(1) by simp
      show "bv = (pre @ [w]) ! b" using Cons.prems(1,2) by (simp add: nth_append)
      show "(pre @ [w]) ! j \<le> bv" if "j < length (pre @ [w])" for j
        using that Cons.prems(3) [of j] False by (cases "j < length pre") (auto simp: nth_append)
      show "(pre @ [w]) ! j < bv" if "j < b" for j
        using that Cons.prems(4) [of j] Cons.prems(1) by (auto simp: nth_append)
    qed
    then show ?thesis using False by simp
  qed
qed

lemma argmax_first_max:
  assumes "ws \<noteq> []"
  obtains k where "argmax ws = Inr k" "k < length ws"
    "\<And>j. j < length ws \<Longrightarrow> ws ! j \<le> ws ! k" "\<And>j. j < k \<Longrightarrow> ws ! j < ws ! k"
proof -
  obtain w ws' where ws: "ws = w # ws'" using assms by (cases ws) auto
  have "argmax_loop ws' (length [w]) 0 w < length ([w] @ ws') \<and>
         (\<forall>j < length ([w] @ ws'). ([w] @ ws') ! j \<le> ([w] @ ws') ! argmax_loop ws' (length [w]) 0 w) \<and>
         (\<forall>j < argmax_loop ws' (length [w]) 0 w. ([w] @ ws') ! j < ([w] @ ws') ! argmax_loop ws' (length [w]) 0 w)"
    by (rule argmax_loop_first_max) simp_all
  then have "argmax_loop ws' 1 0 w < length ws \<and>
         (\<forall>j < length ws. ws ! j \<le> ws ! argmax_loop ws' 1 0 w) \<and>
         (\<forall>j < argmax_loop ws' 1 0 w. ws ! j < ws ! argmax_loop ws' 1 0 w)"
    unfolding ws by simp
  moreover have "argmax ws = Inr (argmax_loop ws' 1 0 w)" unfolding ws argmax_def by simp
  ultimately show ?thesis using that by blast
qed


subsection \<open>The plateaus of a padded indicator are the runs of successes\<close>

lemma indicator_simps:
  "indicator [] = []" "indicator (b # bs) = (if b then 1 else 0) # indicator bs"
  "indicator (as @ bs) = indicator as @ indicator bs" "length (indicator bs) = length bs"
  by (simp_all add: indicator_def)

lemma plateau_end_indicator:
  "x = pre @ indicator ts @ [0] \<Longrightarrow> length pre = ia \<Longrightarrow> x ! i = 1 \<Longrightarrow>
   plateau_end x i ia = ia + length (takeWhile (\<lambda>b. b) ts)"
proof (induction ts arbitrary: pre ia)
  case Nil
  then have "\<not> ia < length x - 1" by (simp add: indicator_def)
  then show ?case by (subst plateau_end.simps) simp
next
  case (Cons b ts)
  have len: "ia < length x - 1" using Cons.prems(1,2) by (simp add: indicator_def)
  have at: "x ! ia = (if b then 1 else 0)"
    using Cons.prems(1,2) by (simp add: indicator_def nth_append)
  show ?case
  proof (cases b)
    case True
    have x': "x = (pre @ [1]) @ indicator ts @ [0]"
      using Cons.prems(1) True by (simp add: indicator_def)
    have "plateau_end x i (ia + 1) = ia + 1 + length (takeWhile (\<lambda>b. b) ts)"
      using Cons.IH [OF x' _ Cons.prems(3)] Cons.prems(2) by simp
    moreover have "plateau_end x i ia = plateau_end x i (ia + 1)"
      using len at True Cons.prems(3) by (subst plateau_end.simps) simp
    ultimately show ?thesis using True by simp
  next
    case False
    then have "x ! ia \<noteq> x ! i" using at Cons.prems(3) by simp
    then have "plateau_end x i ia = ia" by (subst plateau_end.simps) simp
    then show ?thesis using False by simp
  qed
qed

lemma local_maxima_loop_runs:
  "x = pre @ 0 # indicator bs @ [0] \<Longrightarrow> length pre = k \<Longrightarrow>
   local_maxima_loop x (k + 1) = map peak_of_run (success_runs k bs)"
proof (induction "length bs" arbitrary: bs pre k x rule: less_induct)
  case less
  show ?case
  proof (cases bs)
    case Nil
    then have "\<not> k + 1 < length x - 1" using less.prems by (simp add: indicator_simps)
    then have "local_maxima_loop x (k + 1) = []" by (subst local_maxima_loop.simps) simp
    then show ?thesis using Nil by simp
  next
    case (Cons b bs')
    have in_range: "k + 1 < length x - 1"
      using less.prems Cons by (simp add: indicator_simps)
    have prev: "x ! (k + 1 - 1) = 0" using less.prems by (simp add: nth_append)
    have cur: "x ! (k + 1) = (if b then 1 else 0)"
      using less.prems Cons by (simp add: nth_append indicator_simps)
    show ?thesis
    proof (cases b)
      case False
      have x': "x = (pre @ [0]) @ 0 # indicator bs' @ [0]"
        using less.prems(1) Cons False by (simp add: indicator_simps)
      have "local_maxima_loop x (k + 1) = local_maxima_loop x (k + 1 + 1)"
        using in_range prev cur False by (subst local_maxima_loop.simps) simp
      also have "\<dots> = map peak_of_run (success_runs (k + 1) bs')"
        using less.hyps [OF _ x', of "k + 1"] Cons less.prems(2) by simp
      finally show ?thesis using Cons False by simp
    next
      case True
      define t where "t = takeWhile (\<lambda>b. b) bs'"
      define d where "d = dropWhile (\<lambda>b. b) bs'"
      define e where "e = k + 2 + length t"
      have bs': "bs' = t @ d" unfolding t_def d_def by simp
      have x1: "x = (pre @ [0, 1]) @ indicator bs' @ [0]"
        using less.prems(1) Cons True by (simp add: indicator_simps)
      have pe: "plateau_end x (k + 1) (k + 1 + 1) = e"
        using plateau_end_indicator [OF x1, of "k + 2" "k + 1"] less.prems(2) cur True
        unfolding e_def t_def by simp
      have all_t: "indicator t = replicate (length t) 1"
        unfolding t_def indicator_def
        by (induction bs') simp_all
      have x2: "x = (pre @ 0 # 1 # indicator t) @ indicator d @ [0]"
        using x1 bs' by (simp add: indicator_simps)
      have len2: "length (pre @ 0 # 1 # indicator t) = e"
        unfolding e_def using less.prems(2) by (simp add: indicator_simps)
      have d_head: "d = [] \<or> (\<exists>d'. d = False # d')"
      proof (cases d)
        case Nil
        then show ?thesis by simp
      next
        case (Cons c d')
        have "\<not> hd (dropWhile (\<lambda>b. b) bs')"
          using Cons d_def hd_dropWhile [of "\<lambda>b. b" bs'] by auto
        then show ?thesis using Cons d_def by simp
      qed
      have at_e: "x ! e = 0"
        using d_head x2 len2 by (auto simp: nth_append indicator_simps)
      have falling: "x ! e < x ! (k + 1)" using at_e cur True by simp
      have step: "local_maxima_loop x (k + 1) =
          ((k + 1 + (e - 1)) div 2, k + 1, e - 1) # local_maxima_loop x (e + 1)"
        using in_range prev cur True falling
        using pe by (subst local_maxima_loop.simps) (simp add: Let_def)
      have pk: "((k + 1 + (e - 1)) div 2, k + 1, e - 1) = peak_of_run (k, Suc (length t))"
        unfolding peak_of_run_def e_def by simp
      have rest: "local_maxima_loop x (e + 1) = map peak_of_run (success_runs (k + Suc (length t)) d)"
      proof (cases d)
        case Nil
        then have "length x = e + 1" using x2 len2 by (simp add: indicator_simps)
        then have "local_maxima_loop x (e + 1) = []" by (subst local_maxima_loop.simps) simp
        then show ?thesis using Nil by simp
      next
        case (Cons c d')
        then have d: "d = False # d'" using d_head by auto
        have x3: "x = (pre @ 0 # 1 # indicator t) @ 0 # indicator d' @ [0]"
          using x2 d by (simp add: indicator_simps)
        have shorter: "length d' < length bs"
          using bs' d \<open>bs = b # bs'\<close> by simp
        have "local_maxima_loop x (e + 1) = map peak_of_run (success_runs e d')"
          using less.hyps [OF shorter x3 len2] .
        moreover have "success_runs (k + Suc (length t)) d = success_runs e d'"
          unfolding d e_def by simp
        ultimately show ?thesis by simp
      qed
      show ?thesis
        unfolding step pk rest using Cons True by (simp add: t_def d_def)
    qed
  qed
qed

lemma local_maxima_1d_runs:
  "local_maxima_1d (0 # indicator bs @ [0]) = map peak_of_run (success_runs 0 bs)"
  unfolding local_maxima_1d_def
  using local_maxima_loop_runs [of "0 # indicator bs @ [0]" "[]" bs 0] by simp

lemma binary_signal_padded: "binary_signal (0 # indicator bs @ [0])"
  unfolding binary_signal_def indicator_def by auto

lemma success_runs_nonempty: "True \<in> set bs \<Longrightarrow> success_runs k bs \<noteq> []"
proof (induction bs arbitrary: k)
  case Nil
  then show ?case by simp
next
  case (Cons b bs)
  then show ?case by (cases b) auto
qed

lemma success_runs_width_pos: "r \<in> set (success_runs k bs) \<Longrightarrow> 1 \<le> snd r"
proof (induction k bs rule: success_runs.induct)
  case (1 k)
  then show ?case by simp
next
  case (2 k bs)
  then show ?case by simp
next
  case (3 k bs)
  then show ?case by auto
qed

lemma first_widest_nth:
  assumes "k < length runs"
    and "\<And>j. j < length runs \<Longrightarrow> snd (runs ! j) \<le> snd (runs ! k)"
    and "\<And>j. j < k \<Longrightarrow> snd (runs ! j) < snd (runs ! k)"
  shows "first_widest runs = Some (runs ! k)"
proof -
  have mx: "Max (set (map snd runs)) = snd (runs ! k)"
  proof (rule Max_eqI)
    show "finite (set (map snd runs))" by simp
    show "y \<le> snd (runs ! k)" if "y \<in> set (map snd runs)" for y
    proof -
      from that obtain j where "j < length runs" "y = snd (runs ! j)"
        by (auto simp: in_set_conv_nth)
      then show ?thesis using assms(2) by simp
    qed
    show "snd (runs ! k) \<in> set (map snd runs)" using assms(1) by simp
  qed
  have "\<exists>i<length runs. snd (runs ! i) = snd (runs ! k) \<and> runs ! k = runs ! i \<and>
          (\<forall>j<i. \<not> snd (runs ! j) = snd (runs ! k))"
  proof (intro exI [of _ k] conjI allI impI)
    show "k < length runs" by fact
    show "\<not> snd (runs ! j) = snd (runs ! k)" if "j < k" for j
      using assms(3) [OF that] by simp
  qed simp_all
  then show ?thesis unfolding first_widest_def mx find_Some_iff .
qed

lemma py_index_nat: "i < length xs \<Longrightarrow> py_index xs (int i) = Inr (xs ! i)"
  by (simp add: py_index_def)

lemma idx_of_widest_peak_indicator:
  assumes "True \<in> set bs"
  obtains r where "first_widest (success_runs 0 bs) = Some r"
    and "idx_of_widest_peak (indicator bs) = Inr (int (run_midpoint r))"
    and "run_midpoint r < length bs" and "bs ! run_midpoint r"
proof -
  define x :: "real list" where "x = 0 # indicator bs @ [0]"
  define runs where "runs = success_runs 0 bs"
  define ws :: "real list" where "ws = map (\<lambda>r. of_nat (snd r)) runs"
  have bin: "binary_signal x" unfolding x_def by (rule binary_signal_padded)
  have lm: "local_maxima_1d x = map peak_of_run runs"
    unfolding x_def runs_def by (rule local_maxima_1d_runs)
  have pw: "plateau_width (peak_of_run r) = snd r" if "r \<in> set runs" for r
    using success_runs_width_pos [of r 0 bs] that unfolding runs_def
    by (cases r) (simp add: plateau_width_def peak_of_run_def)
  have "map (\<lambda>p. (of_nat (plateau_width p) :: real)) (map peak_of_run runs) = ws"
    unfolding ws_def using pw by (simp add: o_def)
  then have fp: "find_peaks x 1 1 = Inr (map (\<lambda>r. fst (peak_of_run r)) runs, ws)"
    unfolding find_peaks_binary [OF bin] lm by (simp add: o_def)
  have ne: "ws \<noteq> []" unfolding ws_def runs_def using success_runs_nonempty [OF assms] by simp
  obtain k where k: "argmax ws = Inr k" "k < length ws"
    "\<And>j. j < length ws \<Longrightarrow> ws ! j \<le> ws ! k" "\<And>j. j < k \<Longrightarrow> ws ! j < ws ! k"
    using argmax_first_max [OF ne] by blast
  have klen: "k < length runs" using k(2) unfolding ws_def by simp
  define r where "r = runs ! k"
  have r_in: "r \<in> set runs" unfolding r_def using klen by simp
  have fw: "first_widest runs = Some r"
    unfolding r_def
  proof (rule first_widest_nth [OF klen])
    show "snd (runs ! j) \<le> snd (runs ! k)" if "j < length runs" for j
      using k(3) [of j] that klen unfolding ws_def by simp
    show "snd (runs ! j) < snd (runs ! k)" if "j < k" for j
      using k(4) [OF that] that klen unfolding ws_def by simp
  qed
  obtain s w where sw: "r = (s, w)" by (cases r) auto
  have w1: "1 \<le> w" using success_runs_width_pos [of r 0 bs] r_in sw unfolding runs_def by simp
  have mid: "int (fst (peak_of_run r)) - 1 = int (run_midpoint r)"
    unfolding sw peak_of_run_def run_midpoint_def using w1 by (simp add: of_nat_diff)
  have idx: "idx_of_widest_peak (indicator bs) = Inr (int (run_midpoint r))"
    unfolding idx_of_widest_peak_def x_def [symmetric] fp
    using k(1) klen mid by (simp add: py_index_def r_def)
  have peak: "is_plateau_peak x (peak_of_run r)"
    using local_maxima_1d_sound [of "peak_of_run r" x] r_in unfolding lm by simp
  have pr: "peak_of_run r = ((s + 1 + (s + w)) div 2, s + 1, s + w)"
    unfolding sw peak_of_run_def by simp
  note v = binary_plateau_values [OF bin peak [unfolded pr]]
  have one: "x ! ((s + 1 + (s + w)) div 2) = 1" using v(7) [OF v(2) v(3)] .
  have m_eq: "(s + 1 + (s + w)) div 2 = Suc (run_midpoint r)"
    unfolding sw run_midpoint_def using w1 by simp
  have in_len: "run_midpoint r < length bs"
    using v(3,4) m_eq unfolding x_def by (simp add: indicator_simps)
  have "indicator bs ! run_midpoint r = 1"
    using one in_len unfolding m_eq x_def by (simp add: nth_append indicator_simps)
  then have "bs ! run_midpoint r" using in_len unfolding indicator_def by (simp split: if_splits)
  show ?thesis using that [OF fw [unfolded runs_def] idx in_len \<open>bs ! run_midpoint r\<close>] .
qed

lemma successes_of_indicator:
  "successes_of success outcomes = indicator (map (\<lambda>outcome. outcome = success) outcomes)"
  by (simp add: successes_of_def indicator_def o_def)

text \<open>
  C1.  Peak selection is a function of the outcome sequence.  For every sequence with a
  success, the index that the evaluator selects (the peak finder on the indicator padded
  with 0 at both ends, the first peak of greatest width, minus one) is the midpoint of
  the first widest maximal run of successes.
\<close>

theorem peak_selection_is_midpoint_of_first_widest_run:
  assumes "success \<in> set outcomes"
  shows "\<exists>k. spec_peak_index (map (\<lambda>outcome. outcome = success) outcomes) = Some k \<and>
             idx_of_widest_peak (successes_of success outcomes) = Inr (int k)"
proof -
  have "True \<in> set (map (\<lambda>outcome. outcome = success) outcomes)" using assms by auto
  then obtain r where
    "first_widest (success_runs 0 (map (\<lambda>outcome. outcome = success) outcomes)) = Some r"
    "idx_of_widest_peak (indicator (map (\<lambda>outcome. outcome = success) outcomes))
       = Inr (int (run_midpoint r))"
    by (rule idx_of_widest_peak_indicator)
  then show ?thesis
    unfolding spec_peak_index_def successes_of_indicator by simp
qed

theorem peak_selection_is_midpoint_of_first_widest_run_witness:
  "(1::int) \<in> set [0, 1, 1, 0, 1] \<and>
   success_runs 0 (map (\<lambda>outcome. outcome = (1::int)) [0, 1, 1, 0, 1]) = [(1, 2), (4, 1)] \<and>
   spec_peak_index (map (\<lambda>outcome. outcome = (1::int)) [0, 1, 1, 0, 1]) = Some 1 \<and>
   idx_of_widest_peak (successes_of 1 [0, 1, 1, 0, 1]) = Inr 1"
proof -
  have runs: "success_runs 0 (map (\<lambda>outcome. outcome = (1::int)) [0, 1, 1, 0, 1]) = [(1, 2), (4, 1)]"
    by simp
  have spec: "spec_peak_index (map (\<lambda>outcome. outcome = (1::int)) [0, 1, 1, 0, 1]) = Some 1"
    unfolding spec_peak_index_def runs by (simp add: first_widest_def run_midpoint_def)
  have "(1::int) \<in> set [0, 1, 1, 0, 1]" by simp
  from peak_selection_is_midpoint_of_first_widest_run [OF this] spec runs
  show ?thesis by simp
qed


section \<open>The evaluator\<close>

lemma sweep_length: "length (fst (sweep sim R pos yaws s)) = length yaws"
proof (induction yaws arbitrary: s)
  case Nil
  then show ?case by simp
next
  case (Cons yaw yaws)
  obtain result s2 where t:
    "test_grasp sim (restore_state sim s) (Transform (rot_mul R (from_euler_z yaw)) pos) = (result, s2)"
    by (cases "test_grasp sim (restore_state sim s) (Transform (rot_mul R (from_euler_z yaw)) pos)")
  obtain results s3 where r: "sweep sim R pos yaws s2 = (results, s3)"
    by (cases "sweep sim R pos yaws s2")
  have "length results = length yaws" using Cons.IH [of s2] r by simp
  then show ?case using t r by (simp add: Let_def)
qed

lemma linspace_length: "length (linspace start stop num) = num"
  by (simp add: linspace_def)

lemma sweep_outcomes_length:
  "0 \<le> n \<Longrightarrow> length (sweep_outcomes sim s pos normal n) = nat n"
  by (simp add: sweep_outcomes_def sweep_results_def sweep_length linspace_length)

lemma sum_successes_nonzero:
  "sum_list (successes_of success outcomes) \<noteq> 0 \<longleftrightarrow> success \<in> set outcomes"
proof -
  have nonneg: "0 \<le> sum_list (successes_of success os)" for os
    by (induction os) (simp_all add: successes_of_def)
  show ?thesis
  proof (induction outcomes)
    case Nil
    then show ?case by (simp add: successes_of_def)
  next
    case (Cons a outcomes)
    have "successes_of success (a # outcomes)
        = (if a = success then 1 else 0) # successes_of success outcomes"
      by (simp add: successes_of_def)
    then show ?case using Cons nonneg [of outcomes] by auto
  qed
qed

lemma evaluate_success_case:
  fixes sim :: "'s simulation"
  assumes "0 \<le> n" and "success \<in> set (sweep_outcomes sim s pos normal n)"
  obtains r where
    "first_widest (success_runs 0 (map (\<lambda>outcome. outcome = success) (sweep_outcomes sim s pos normal n))) = Some r"
    and "idx_of_widest_peak (successes_of success (sweep_outcomes sim s pos normal n))
           = Inr (int (run_midpoint r))"
    and "run_midpoint r < nat n"
    and "sweep_outcomes sim s pos normal n ! run_midpoint r = success"
    and "evaluate_grasp_point success sim s pos normal n =
           Inr ((Grasp (Transform (rot_mul (from_dcm (grasp_frame normal))
                                   (from_euler_z (linspace 0 pi (nat n) ! run_midpoint r))) pos)
                       (snd (sweep_results sim s pos normal n ! run_midpoint r)),
                 Max (set (sweep_outcomes sim s pos normal n))),
                snd (sweep sim (from_dcm (grasp_frame normal)) pos (linspace 0 pi (nat n)) s))"
proof -
  define R where "R = from_dcm (grasp_frame normal)"
  define yaws where "yaws = linspace 0 pi (nat n)"
  define results where "results = sweep_results sim s pos normal n"
  define outcomes where "outcomes = sweep_outcomes sim s pos normal n"
  define bs where "bs = map (\<lambda>outcome. outcome = success) outcomes"
  have sw: "sweep sim R pos yaws s = (results, snd (sweep sim R pos yaws s))"
    unfolding results_def sweep_results_def R_def yaws_def by simp
  have oc: "outcomes = map fst results"
    unfolding outcomes_def results_def sweep_outcomes_def by simp
  have len: "length outcomes = nat n" "length results = nat n" "length yaws = nat n"
    unfolding outcomes_def results_def yaws_def
    using assms(1) sweep_outcomes_length [OF assms(1)]
    by (simp_all add: sweep_results_def sweep_length linspace_length)
  have "True \<in> set bs" using assms(2) unfolding bs_def outcomes_def by auto
  then obtain r where r: "first_widest (success_runs 0 bs) = Some r"
    "idx_of_widest_peak (indicator bs) = Inr (int (run_midpoint r))"
    "run_midpoint r < length bs" "bs ! run_midpoint r"
    by (rule idx_of_widest_peak_indicator)
  have mid: "run_midpoint r < nat n" using r(3) len unfolding bs_def by simp
  have hit: "outcomes ! run_midpoint r = success"
    using r(3,4) unfolding bs_def by simp
  have nz: "sum_list (successes_of success outcomes) \<noteq> 0"
    using assms(2) unfolding sum_successes_nonzero outcomes_def .
  have idx: "idx_of_widest_peak (successes_of success outcomes) = Inr (int (run_midpoint r))"
    unfolding successes_of_indicator bs_def [symmetric] by (rule r(2))
  have ne: "outcomes \<noteq> []" using assms(2) unfolding outcomes_def by auto
  have mx: "np_max outcomes = Inr (Max (set outcomes))" using ne by (simp add: np_max_def)
  have y: "py_index yaws (int (run_midpoint r)) = Inr (yaws ! run_midpoint r)"
    using mid len by (intro py_index_nat) simp
  have w: "py_index (map snd results) (int (run_midpoint r)) = Inr (snd (results ! run_midpoint r))"
    using mid len py_index_nat [of "run_midpoint r" "map snd results"] by simp
  have "evaluate_grasp_point success sim s pos normal n =
      Inr ((Grasp (Transform (rot_mul R (from_euler_z (yaws ! run_midpoint r))) pos)
                  (snd (results ! run_midpoint r)), Max (set outcomes)),
           snd (sweep sim R pos yaws s))"
    unfolding evaluate_grasp_point_def R_def [symmetric] yaws_def [symmetric] Let_def
    using assms(1) nz idx y w mx
    by (subst sw) (simp add: oc [symmetric])
  then show ?thesis
    using that [OF r(1) [unfolded bs_def outcomes_def] idx [unfolded outcomes_def] mid
        hit [unfolded outcomes_def]]
    unfolding R_def yaws_def results_def outcomes_def by simp
qed

lemma evaluate_failure_case:
  fixes sim :: "'s simulation"
  assumes "0 < n" and "success \<notin> set (sweep_outcomes sim s pos normal n)"
  shows "evaluate_grasp_point success sim s pos normal n =
           Inr ((Grasp (Transform rot_identity pos) 0,
                 Max (set (sweep_outcomes sim s pos normal n))),
                snd (sweep sim (from_dcm (grasp_frame normal)) pos (linspace 0 pi (nat n)) s))"
proof -
  define R where "R = from_dcm (grasp_frame normal)"
  define yaws where "yaws = linspace 0 pi (nat n)"
  define results where "results = sweep_results sim s pos normal n"
  define outcomes where "outcomes = sweep_outcomes sim s pos normal n"
  have sw: "sweep sim R pos yaws s = (results, snd (sweep sim R pos yaws s))"
    unfolding results_def sweep_results_def R_def yaws_def by simp
  have oc: "outcomes = map fst results"
    unfolding outcomes_def results_def sweep_outcomes_def by simp
  have "length outcomes = nat n"
    unfolding outcomes_def using assms(1) by (intro sweep_outcomes_length) simp
  then have ne: "outcomes \<noteq> []" using assms(1) by auto
  have mx: "np_max outcomes = Inr (Max (set outcomes))" using ne by (simp add: np_max_def)
  have z: "sum_list (successes_of success outcomes) = 0"
    using assms(2) sum_successes_nonzero [of success outcomes] unfolding outcomes_def by simp
  have "evaluate_grasp_point success sim s pos normal n =
      Inr ((Grasp (Transform rot_identity pos) 0, Max (set outcomes)), snd (sweep sim R pos yaws s))"
    unfolding evaluate_grasp_point_def R_def [symmetric] yaws_def [symmetric] Let_def
    using assms(1) z mx
    by (subst sw) (simp add: oc [symmetric])
  then show ?thesis unfolding R_def yaws_def outcomes_def by simp
qed


subsection \<open>Sweeps of the example simulations\<close>

lemma sweep_constant_sim:
  "sweep (constant_sim c w) R pos yaws s = (map (\<lambda>_. (c, w)) yaws, s)"
  by (induction yaws arbitrary: s) (simp_all add: constant_sim_def)

lemma sweep_outcomes_constant_sim:
  "sweep_outcomes (constant_sim c w) s pos normal n = replicate (nat n) c"
  by (simp add: sweep_outcomes_def sweep_results_def sweep_constant_sim linspace_length
      map_replicate_const o_def)

lemma sweep_yaw_probe_sim:
  "sweep yaw_probe_sim R pos yaws s =
     (map (\<lambda>yaw. (if qw (rot_mul R (from_euler_z yaw)) = 1 then 0 else 1, 0)) yaws, s)"
  by (induction yaws arbitrary: s) (simp_all add: yaw_probe_sim_def Transform_def)

lemma sqrt_16: "sqrt 16 = 4"
  using real_sqrt_abs [of 4] by simp

lemma from_dcm_upright: "from_dcm (grasp_frame (0, 0, - 1)) = Quat 0 0 0 1"
  by (simp add: grasp_frame_def reference_axis_def isclose_def from_dcm_def argmax_def
      quat_norm_def sqrt_16 Let_def)

lemma yaw_probe_outcomes:
  "sweep_outcomes yaw_probe_sim () (0, 0, 0) (0, 0, - 1) 12 = 0 # replicate 11 1"
proof -
  have qw: "qw (rot_mul (Quat 0 0 0 1) (from_euler_z yaw)) = cos (yaw / 2)" for yaw
    by (simp add: from_euler_z_def)
  have off: "cos (real i * (pi / 11) / 2) \<noteq> 1" if "i \<in> set [1..<12]" for i
  proof -
    have "0 < real i * (pi / 11) / 2" using that by simp
    moreover have "real i * (pi / 11) / 2 \<le> pi"
    proof -
      have "real i \<le> 11" using that by simp
      then have "real i * pi \<le> 11 * pi" by (intro mult_right_mono) simp_all
      then show ?thesis by simp
    qed
    ultimately have "cos (real i * (pi / 11) / 2) < cos 0"
      by (intro cos_monotone_0_pi) simp_all
    then show ?thesis by simp
  qed
  have split: "[0..<12] = 0 # [1..<12]" by (simp add: upt_rec)
  have "map (\<lambda>i. if cos (real i * (pi / 11) / 2) = 1 then 0 else (1::int)) [1..<12]
      = map (\<lambda>i. 1) [1..<12]"
    using off by (intro map_cong) simp_all
  also have "\<dots> = replicate 11 1" by (simp add: map_replicate_const)
  finally have tail: "map (\<lambda>i. if cos (real i * (pi / 11) / 2) = 1 then 0 else (1::int)) [1..<12]
      = replicate 11 1" .
  have "sweep_outcomes yaw_probe_sim () (0, 0, 0) (0, 0, - 1) 12
      = map (\<lambda>i. if cos (real i * (pi / 11) / 2) = 1 then 0 else (1::int)) [0..<12]"
    by (simp add: sweep_outcomes_def sweep_results_def sweep_yaw_probe_sim from_dcm_upright
        linspace_def qw o_def)
  also have "\<dots> = 0 # replicate 11 1"
    unfolding split using tail by simp
  finally show ?thesis .
qed

lemma evaluate_constant_sim_success:
  "\<exists>g s'. evaluate_grasp_point success (constant_sim success wd) s pos normal 12
     = Inr ((g, success), s')"
proof -
  have oc: "sweep_outcomes (constant_sim success wd) s pos normal 12 = replicate 12 success"
    by (simp add: sweep_outcomes_constant_sim)
  have "success \<in> set (sweep_outcomes (constant_sim success wd) s pos normal 12)"
    unfolding oc by simp
  moreover have "Max (set (sweep_outcomes (constant_sim success wd) s pos normal 12)) = success"
    unfolding oc by simp
  ultimately show ?thesis
    using evaluate_success_case [of 12 success "constant_sim success wd" s pos normal]
    by (metis zero_le_numeral)
qed


subsection \<open>Label and selected yaw\<close>

text \<open>
  C3.  For every sweep with at least one yaw, the evaluator returns, and the label it
  returns is the greatest outcome code of the sweep.  When no outcome code exceeds the
  code of success, the label is success if and only if some yaw succeeded.
\<close>

theorem label_is_maximum_outcome:
  fixes sim :: "'s simulation"
  assumes "0 < n"
  shows "\<exists>g label s'.
           evaluate_grasp_point success sim s pos normal n = Inr ((g, label), s') \<and>
           label = Max (set (sweep_outcomes sim s pos normal n)) \<and>
           label \<in> set (sweep_outcomes sim s pos normal n) \<and>
           (\<forall>outcome \<in> set (sweep_outcomes sim s pos normal n). outcome \<le> label) \<and>
           ((\<forall>outcome \<in> set (sweep_outcomes sim s pos normal n). outcome \<le> success) \<longrightarrow>
              (label = success \<longleftrightarrow> success \<in> set (sweep_outcomes sim s pos normal n)))"
proof -
  define outcomes where "outcomes = sweep_outcomes sim s pos normal n"
  have "length outcomes = nat n"
    unfolding outcomes_def using assms by (intro sweep_outcomes_length) simp
  then have ne: "set outcomes \<noteq> {}" using assms by auto
  have fin: "finite (set outcomes)" by simp
  have m_in: "Max (set outcomes) \<in> set outcomes" using Max_in [OF fin ne] .
  have m_ge: "\<forall>outcome \<in> set outcomes. outcome \<le> Max (set outcomes)" using fin by simp
  have iff: "(\<forall>outcome \<in> set outcomes. outcome \<le> success) \<longrightarrow>
      (Max (set outcomes) = success \<longleftrightarrow> success \<in> set outcomes)"
    using m_in fin Max_eqI [of "set outcomes" success] by blast
  have "\<exists>g s'. evaluate_grasp_point success sim s pos normal n
      = Inr ((g, Max (set outcomes)), s')"
  proof (cases "success \<in> set outcomes")
    case True
    then show ?thesis
      using evaluate_success_case [of n success sim s pos normal] assms
      unfolding outcomes_def by (metis less_imp_le)
  next
    case False
    then show ?thesis
      using evaluate_failure_case [OF assms, of success sim s pos normal]
      unfolding outcomes_def by blast
  qed
  then show ?thesis using m_in m_ge iff unfolding outcomes_def by blast
qed

theorem label_is_maximum_outcome_witness:
  "(0::int) < 12 \<and>
   sweep_outcomes (constant_sim 1 (1 / 20)) () (0, 0, 0) (0, 0, - 1) 12 = replicate 12 1 \<and>
   Max (set (sweep_outcomes (constant_sim 1 (1 / 20)) () (0, 0, 0) (0, 0, - 1) 12)) = 1 \<and>
   returned_label (evaluate_grasp_point 1 (constant_sim 1 (1 / 20)) () (0, 0, 0) (0, 0, - 1) 12)
     = Some 1"
proof -
  have pos: "(0::int) < 12" by simp
  have oc: "sweep_outcomes (constant_sim 1 (1 / 20)) () (0, 0, 0) (0, 0, - 1) 12 = replicate 12 1"
    by (simp add: sweep_outcomes_constant_sim)
  have top: "\<forall>outcome \<in> set (sweep_outcomes (constant_sim 1 (1 / 20)) () (0, 0, 0) (0, 0, - 1) 12).
      outcome \<le> 1"
    unfolding oc by simp
  have hit: "1 \<in> set (sweep_outcomes (constant_sim 1 (1 / 20)) () (0, 0, 0) (0, 0, - 1) 12)"
    unfolding oc by simp
  from label_is_maximum_outcome [OF pos, of 1 "constant_sim 1 (1 / 20)" "()" "(0, 0, 0)" "(0, 0, - 1)"]
  obtain g label s' where e:
    "evaluate_grasp_point 1 (constant_sim 1 (1 / 20)) () (0, 0, 0) (0, 0, - 1) 12 = Inr ((g, label), s')"
    "(\<forall>outcome \<in> set (sweep_outcomes (constant_sim 1 (1 / 20)) () (0, 0, 0) (0, 0, - 1) 12).
        outcome \<le> 1) \<longrightarrow>
     (label = 1 \<longleftrightarrow> 1 \<in> set (sweep_outcomes (constant_sim 1 (1 / 20)) () (0, 0, 0) (0, 0, - 1) 12))"
    by blast
  have "label = 1" using e(2) top hit by blast
  then show ?thesis using pos oc e(1) by (simp add: returned_label_def)
qed

text \<open>
  C10.  For every outcome sequence with a success, the index selected by peak detection
  lies in the sequence and its own outcome is success.  In the evaluator this gives: the
  returned grasp has the rotation of the selected yaw, the returned width is the one
  recorded at that yaw, whose attempt succeeded, and the returned label equals the
  selected yaw's outcome when no outcome code exceeds the code of success.
\<close>

theorem selected_yaw_succeeded:
  fixes sim :: "'s simulation"
  shows "(success \<in> set outcomes \<longrightarrow>
            (\<exists>k. idx_of_widest_peak (successes_of success outcomes) = Inr (int k) \<and>
                 k < length outcomes \<and> outcomes ! k = success)) \<and>
         (0 \<le> n \<and> success \<in> set (sweep_outcomes sim s pos normal n) \<longrightarrow>
            (\<exists>k g label s'.
               idx_of_widest_peak (successes_of success (sweep_outcomes sim s pos normal n))
                 = Inr (int k) \<and>
               k < nat n \<and>
               evaluate_grasp_point success sim s pos normal n = Inr ((g, label), s') \<and>
               rotation (pose g) =
                 rot_mul (from_dcm (grasp_frame normal)) (from_euler_z (linspace 0 pi (nat n) ! k)) \<and>
               translation (pose g) = pos \<and>
               sweep_results sim s pos normal n ! k = (success, width g) \<and>
               ((\<forall>outcome \<in> set (sweep_outcomes sim s pos normal n). outcome \<le> success) \<longrightarrow>
                  label = sweep_outcomes sim s pos normal n ! k)))"
proof (intro conjI impI)
  assume "success \<in> set outcomes"
  then have "True \<in> set (map (\<lambda>outcome. outcome = success) outcomes)" by auto
  then obtain r where r:
    "idx_of_widest_peak (indicator (map (\<lambda>outcome. outcome = success) outcomes))
       = Inr (int (run_midpoint r))"
    "run_midpoint r < length (map (\<lambda>outcome. outcome = success) outcomes)"
    "map (\<lambda>outcome. outcome = success) outcomes ! run_midpoint r"
    by (rule idx_of_widest_peak_indicator)
  have "idx_of_widest_peak (successes_of success outcomes) = Inr (int (run_midpoint r))"
    unfolding successes_of_indicator by (rule r(1))
  moreover have "run_midpoint r < length outcomes" using r(2) by simp
  moreover have "outcomes ! run_midpoint r = success" using r(2,3) by simp
  ultimately show "\<exists>k. idx_of_widest_peak (successes_of success outcomes) = Inr (int k) \<and>
      k < length outcomes \<and> outcomes ! k = success"
    by blast
next
  define outcomes where "outcomes = sweep_outcomes sim s pos normal n"
  define results where "results = sweep_results sim s pos normal n"
  assume a: "0 \<le> n \<and> success \<in> set (sweep_outcomes sim s pos normal n)"
  then obtain r where r:
    "idx_of_widest_peak (successes_of success outcomes) = Inr (int (run_midpoint r))"
    "run_midpoint r < nat n"
    "outcomes ! run_midpoint r = success"
    "evaluate_grasp_point success sim s pos normal n =
       Inr ((Grasp (Transform (rot_mul (from_dcm (grasp_frame normal))
                               (from_euler_z (linspace 0 pi (nat n) ! run_midpoint r))) pos)
                   (snd (results ! run_midpoint r)),
             Max (set outcomes)),
            snd (sweep sim (from_dcm (grasp_frame normal)) pos (linspace 0 pi (nat n)) s))"
    unfolding outcomes_def results_def
    using evaluate_success_case [of n success sim s pos normal] by metis
  define g where "g = Grasp (Transform (rot_mul (from_dcm (grasp_frame normal))
      (from_euler_z (linspace 0 pi (nat n) ! run_midpoint r))) pos) (snd (results ! run_midpoint r))"
  have len: "length results = nat n"
    unfolding results_def sweep_results_def using a by (simp add: sweep_length linspace_length)
  have oc: "outcomes = map fst results"
    unfolding outcomes_def results_def sweep_outcomes_def by simp
  have "fst (results ! run_midpoint r) = success"
    using r(2,3) len unfolding oc by simp
  then have res: "results ! run_midpoint r = (success, width g)"
    unfolding g_def Grasp_def by (cases "results ! run_midpoint r") simp
  have rot: "rotation (pose g) = rot_mul (from_dcm (grasp_frame normal))
      (from_euler_z (linspace 0 pi (nat n) ! run_midpoint r))"
    and tr: "translation (pose g) = pos"
    unfolding g_def Grasp_def Transform_def by simp_all
  have in_set: "success \<in> set outcomes" using a unfolding outcomes_def by simp
  have lab: "(\<forall>outcome \<in> set outcomes. outcome \<le> success) \<longrightarrow>
      Max (set outcomes) = outcomes ! run_midpoint r"
    unfolding r(3) using in_set Max_eqI [of "set outcomes" success] by blast
  show "\<exists>k g label s'.
      idx_of_widest_peak (successes_of success (sweep_outcomes sim s pos normal n)) = Inr (int k) \<and>
      k < nat n \<and>
      evaluate_grasp_point success sim s pos normal n = Inr ((g, label), s') \<and>
      rotation (pose g) =
        rot_mul (from_dcm (grasp_frame normal)) (from_euler_z (linspace 0 pi (nat n) ! k)) \<and>
      translation (pose g) = pos \<and>
      sweep_results sim s pos normal n ! k = (success, width g) \<and>
      ((\<forall>outcome \<in> set (sweep_outcomes sim s pos normal n). outcome \<le> success) \<longrightarrow>
         label = sweep_outcomes sim s pos normal n ! k)"
    using r(1,2) r(4) [folded g_def] rot tr res lab
    unfolding outcomes_def results_def by blast
qed

theorem selected_yaw_succeeded_witness:
  "(1::int) \<in> set [0, 1, 1, 0, 1] \<and>
   idx_of_widest_peak (successes_of 1 [0, 1, 1, 0, 1]) = Inr 1 \<and>
   (0::int) \<le> 12 \<and> 1 \<in> set (sweep_outcomes (constant_sim 1 (1 / 20)) () (0, 0, 0) (0, 0, - 1) 12) \<and>
   map_option width
     (returned_grasp (evaluate_grasp_point 1 (constant_sim 1 (1 / 20)) () (0, 0, 0) (0, 0, - 1) 12))
     = Some (1 / 20)"
proof -
  have h1: "(1::int) \<in> set [0, 1, 1, 0, 1]" by simp
  have oc: "sweep_outcomes (constant_sim 1 (1 / 20)) () (0, 0, 0) (0, 0, - 1) 12 = replicate 12 1"
    by (simp add: sweep_outcomes_constant_sim)
  have h2: "(0::int) \<le> 12 \<and> 1 \<in> set (sweep_outcomes (constant_sim 1 (1 / 20)) () (0, 0, 0) (0, 0, - 1) 12)"
    unfolding oc by simp
  have res: "sweep_results (constant_sim 1 (1 / 20)) () (0, 0, 0) (0, 0, - 1) 12 = replicate 12 (1, 1 / 20)"
    by (simp add: sweep_results_def sweep_constant_sim linspace_length map_replicate_const)
  note inst = selected_yaw_succeeded [of 1 "[0, 1, 1, 0, 1]" 12 "constant_sim 1 (1 / 20)" "()"
      "(0, 0, 0)" "(0, 0, - 1)"]
  from inst h1 obtain k where k: "idx_of_widest_peak (successes_of 1 [0, 1, 1, 0, 1]) = Inr (int k)"
    "k < length [0, 1, 1, 0, 1 :: int]" "[0, 1, 1, 0, 1 :: int] ! k = 1"
    by blast
  have idx: "idx_of_widest_peak (successes_of 1 [0, 1, 1, 0, 1]) = Inr 1"
    by (simp add: successes_of_def idx_of_widest_peak_def) code_simp
  from inst h2 obtain k g label s' where e:
    "k < nat 12"
    "evaluate_grasp_point 1 (constant_sim 1 (1 / 20)) () (0, 0, 0) (0, 0, - 1) 12 = Inr ((g, label), s')"
    "sweep_results (constant_sim 1 (1 / 20)) () (0, 0, 0) (0, 0, - 1) 12 ! k = (1, width g)"
    by blast
  have "width g = 1 / 20" using e(1,3) unfolding res by simp
  then show ?thesis using h1 h2 idx e(2) by (simp add: returned_grasp_def)
qed

text \<open>
  C4, as amended.  For every sweep with at least one yaw and no success, the evaluator
  returns the grasp with the identity rotation, the raw input position and width 0.
  The label is the greatest outcome code of the sweep, which is a failure code; it is the
  outcome of the first yaw when no later yaw has a greater code.
\<close>

theorem no_success_identity_grasp_max_label:
  fixes sim :: "'s simulation"
  assumes "0 < n" and "success \<notin> set (sweep_outcomes sim s pos normal n)"
  shows "\<exists>g label s'.
           evaluate_grasp_point success sim s pos normal n = Inr ((g, label), s') \<and>
           rotation (pose g) = Quat 0 0 0 1 \<and> translation (pose g) = pos \<and> width g = 0 \<and>
           label = Max (set (sweep_outcomes sim s pos normal n)) \<and>
           label \<in> set (sweep_outcomes sim s pos normal n) \<and> label \<noteq> success \<and>
           ((\<forall>outcome \<in> set (sweep_outcomes sim s pos normal n).
               outcome \<le> sweep_outcomes sim s pos normal n ! 0) \<longrightarrow>
              label = sweep_outcomes sim s pos normal n ! 0)"
proof -
  define outcomes where "outcomes = sweep_outcomes sim s pos normal n"
  define g where "g = Grasp (Transform rot_identity pos) 0"
  have len: "length outcomes = nat n"
    unfolding outcomes_def using assms(1) by (intro sweep_outcomes_length) simp
  then have ne: "set outcomes \<noteq> {}" using assms(1) by auto
  have fin: "finite (set outcomes)" by simp
  have m_in: "Max (set outcomes) \<in> set outcomes" using Max_in [OF fin ne] .
  then have m_fail: "Max (set outcomes) \<noteq> success" using assms(2) unfolding outcomes_def by metis
  have first_in: "outcomes ! 0 \<in> set outcomes" using len assms(1) by (intro nth_mem) simp
  have first: "(\<forall>outcome \<in> set outcomes. outcome \<le> outcomes ! 0) \<longrightarrow>
      Max (set outcomes) = outcomes ! 0"
    using first_in fin Max_eqI [of "set outcomes" "outcomes ! 0"] by blast
  have ev: "evaluate_grasp_point success sim s pos normal n =
      Inr ((g, Max (set outcomes)),
           snd (sweep sim (from_dcm (grasp_frame normal)) pos (linspace 0 pi (nat n)) s))"
    unfolding g_def outcomes_def by (rule evaluate_failure_case [OF assms])
  have fields: "rotation (pose g) = Quat 0 0 0 1" "translation (pose g) = pos" "width g = 0"
    unfolding g_def Grasp_def Transform_def rot_identity_def by simp_all
  show ?thesis
    using ev fields m_in m_fail first unfolding outcomes_def by blast
qed

theorem no_success_identity_grasp_max_label_witness:
  "(0::int) < 12 \<and>
   1 \<notin> set (sweep_outcomes (constant_sim 0 0) () (1, 2, 3) (0, 0, - 1) 12) \<and>
   returned_label (evaluate_grasp_point 1 (constant_sim 0 0) () (1, 2, 3) (0, 0, - 1) 12) = Some 0 \<and>
   map_option (\<lambda>g. (rotation (pose g), translation (pose g), width g))
     (returned_grasp (evaluate_grasp_point 1 (constant_sim 0 0) () (1, 2, 3) (0, 0, - 1) 12))
     = Some (Quat 0 0 0 1, (1, 2, 3), 0)"
proof -
  have h1: "(0::int) < 12" by simp
  have oc: "sweep_outcomes (constant_sim 0 0) () (1, 2, 3) (0, 0, - 1) 12 = replicate 12 0"
    by (simp add: sweep_outcomes_constant_sim)
  have h2: "1 \<notin> set (sweep_outcomes (constant_sim 0 0) () (1, 2, 3) (0, 0, - 1) 12)"
    unfolding oc by simp
  from no_success_identity_grasp_max_label [OF h1 h2]
  obtain g label s' where e:
    "evaluate_grasp_point 1 (constant_sim 0 0) () (1, 2, 3) (0, 0, - 1) 12 = Inr ((g, label), s')"
    "rotation (pose g) = Quat 0 0 0 1" "translation (pose g) = (1, 2, 3)" "width g = 0"
    "label = Max (set (sweep_outcomes (constant_sim 0 0) () (1, 2, 3) (0, 0, - 1) 12))"
    by blast
  have "label = 0" using e(5) unfolding oc by simp
  then show ?thesis using h1 h2 e(1,2,3,4) by (simp add: returned_label_def returned_grasp_def)
qed

text \<open>
  C4 as stated fails: with the code of success 2 and a simulation that reports outcome 0
  at yaw 0 and outcome 1 at every other yaw, no yaw succeeds, the first yaw's outcome is
  0, and the returned label is 1.
\<close>

theorem label_is_not_first_outcome_counterexample:
  "2 \<notin> set (sweep_outcomes yaw_probe_sim () (0, 0, 0) (0, 0, - 1) 12) \<and>
   sweep_outcomes yaw_probe_sim () (0, 0, 0) (0, 0, - 1) 12 ! 0 = 0 \<and>
   returned_label (evaluate_grasp_point 2 yaw_probe_sim () (0, 0, 0) (0, 0, - 1) 12) = Some 1"
proof -
  have oc: "sweep_outcomes yaw_probe_sim () (0, 0, 0) (0, 0, - 1) 12 = 0 # replicate 11 1"
    by (rule yaw_probe_outcomes)
  have none: "2 \<notin> set (sweep_outcomes yaw_probe_sim () (0, 0, 0) (0, 0, - 1) 12)"
    unfolding oc by simp
  have "evaluate_grasp_point 2 yaw_probe_sim () (0, 0, 0) (0, 0, - 1) 12 =
      Inr ((Grasp (Transform rot_identity (0, 0, 0)) 0,
            Max (set (sweep_outcomes yaw_probe_sim () (0, 0, 0) (0, 0, - 1) 12))),
           snd (sweep yaw_probe_sim (from_dcm (grasp_frame (0, 0, - 1))) (0, 0, 0)
                  (linspace 0 pi (nat 12)) ()))"
    by (rule evaluate_failure_case [OF _ none]) simp
  then have "returned_label (evaluate_grasp_point 2 yaw_probe_sim () (0, 0, 0) (0, 0, - 1) 12)
      = Some (Max (set (0 # replicate 11 (1::int))))"
    unfolding oc by (simp add: returned_label_def)
  then show ?thesis using none oc by simp
qed


section \<open>The grasp frame\<close>

lemma dot_cross_left: "dot (cross a b) a = 0"
  by (cases a; cases b) (simp add: algebra_simps)

lemma dot_cross_right: "dot (cross a b) b = 0"
  by (cases a; cases b) (simp add: algebra_simps)

lemma dot_commute: "dot a b = dot b a"
  by (cases a; cases b) (simp add: algebra_simps)

lemma cross_norm: "dot (cross a b) (cross a b) = dot a a * dot b b - (dot a b)\<^sup>2"
  by (cases a; cases b) (simp add: algebra_simps power2_eq_square)

lemma cross_cross: "cross (cross a b) c = vadd (vscale (dot a c) b) (vneg (vscale (dot b c) a))"
  by (cases a; cases b; cases c) (simp add: algebra_simps)

lemma dot_vneg: "dot (vneg a) (vneg a) = dot a a"
  by (cases a) simp

lemma reference_axis_cases:
  "reference_axis z = (1, 0, 0) \<or> reference_axis z = (0, 1, 0)"
  by (simp add: reference_axis_def)

lemma reference_axis_not_parallel:
  assumes "dot z z = 1"
  shows "(dot (reference_axis z) z)\<^sup>2 < 1"
proof -
  obtain z1 z2 z3 where z: "z = (z1, z2, z3)" by (cases z) auto
  have unit: "z1 * z1 + z2 * z2 + z3 * z3 = 1" using assms unfolding z by simp
  have sq: "0 \<le> z1 * z1" "0 \<le> z2 * z2" "0 \<le> z3 * z3" by simp_all
  show ?thesis
  proof (cases "isclose \<bar>dot (1, 0, 0) z\<bar> 1 (1 / 10 ^ 4)")
    case False
    then have ref: "reference_axis z = (1, 0, 0)" by (simp add: reference_axis_def)
    have "\<bar>z1\<bar> \<noteq> 1"
    proof
      assume "\<bar>z1\<bar> = 1"
      then have "isclose \<bar>dot (1, 0, 0) z\<bar> 1 (1 / 10 ^ 4)" unfolding z by (simp add: isclose_def)
      then show False using False by simp
    qed
    then have "z1 * z1 \<noteq> 1" by (metis abs_mult_self_eq mult.right_neutral real_sqrt_abs2 real_sqrt_one)
    moreover have "z1 * z1 \<le> 1" using unit sq by linarith
    ultimately have "z1 * z1 < 1" by simp
    then show ?thesis using ref unfolding z by (simp add: power2_eq_square)
  next
    case True
    then have ref: "reference_axis z = (0, 1, 0)" by (simp add: reference_axis_def)
    have "\<bar>\<bar>z1\<bar> - 1\<bar> \<le> 1 / 10 ^ 8 + 1 / 10 ^ 4"
      using True unfolding z by (simp add: isclose_def)
    then have "\<bar>\<bar>z1\<bar> - 1\<bar> \<le> 1 / 10" by simp
    then have lo: "9 / 10 \<le> \<bar>z1\<bar>" by linarith
    have "(9 / 10) * (9 / 10) \<le> \<bar>z1\<bar> * \<bar>z1\<bar>"
      using lo by (intro mult_mono) simp_all
    then have "81 / 100 \<le> z1 * z1" by simp
    then have "z2 * z2 < 1" using unit sq by linarith
    then show ?thesis using ref unfolding z by (simp add: power2_eq_square)
  qed
qed

lemma quat_norm_normalised:
  assumes "1 \<le> x \<or> 1 \<le> y \<or> 1 \<le> z \<or> 1 \<le> w"
  shows "quat_norm (Quat (x / quat_norm (Quat x y z w)) (y / quat_norm (Quat x y z w))
           (z / quat_norm (Quat x y z w)) (w / quat_norm (Quat x y z w))) = 1"
proof -
  define s where "s = x * x + y * y + z * z + w * w"
  have sq: "0 \<le> x * x" "0 \<le> y * y" "0 \<le> z * z" "0 \<le> w * w" by simp_all
  have "1 \<le> x * x \<or> 1 \<le> y * y \<or> 1 \<le> z * z \<or> 1 \<le> w * w"
    using assms mult_mono [of 1 x 1 x] mult_mono [of 1 y 1 y] mult_mono [of 1 z 1 z]
      mult_mono [of 1 w 1 w] by auto
  then have s: "0 < s" unfolding s_def using sq by linarith
  define r where "r = sqrt s"
  have n: "quat_norm (Quat x y z w) = r" unfolding quat_norm_def s_def r_def by simp
  have rr: "r * r = s" unfolding r_def using s by simp
  have "x / r * (x / r) + y / r * (y / r) + z / r * (z / r) + w / r * (w / r)
      = (x * x + y * y + z * z + w * w) / (r * r)"
    by (simp add: add_divide_distrib)
  also have "\<dots> = 1" unfolding rr s_def [symmetric] using s by simp
  finally show ?thesis unfolding n by (simp add: quat_norm_def)
qed

lemma from_dcm_unit: "quat_norm (from_dcm m) = 1"
proof -
  obtain m00 m10 m20 m01 m11 m21 m02 m12 m22
    where m: "m = ((m00, m10, m20), (m01, m11, m21), (m02, m12, m22))"
    by (cases m) auto
  define tr where "tr = m00 + m11 + m22"
  define ws where "ws = [m00, m11, m22, tr]"
  have "ws \<noteq> []" unfolding ws_def by simp
  then obtain k where k: "argmax ws = Inr k" "k < length ws" "\<And>j. j < length ws \<Longrightarrow> ws ! j \<le> ws ! k"
    using argmax_first_max [of ws] by blast
  have le: "m00 \<le> ws ! k" "m11 \<le> ws ! k" "m22 \<le> ws ! k" "tr \<le> ws ! k"
    using k(3) [of 0] k(3) [of 1] k(3) [of 2] k(3) [of 3] unfolding ws_def by simp_all
  have k4: "k = 0 \<or> k = 1 \<or> k = 2 \<or> k = 3" using k(2) unfolding ws_def by auto
  show ?thesis
  proof -
    consider "k = 0" | "k = 1" | "k = 2" | "k = 3" using k4 by blast
    then show ?thesis
    proof cases
      case 1
      then have "1 \<le> 1 - tr + 2 * m00" using le unfolding ws_def tr_def by simp
      then show ?thesis
        unfolding m from_dcm_def prod.case Let_def tr_def [symmetric] ws_def [symmetric] k(1) 1
        by (simp add: quat_norm_normalised)
    next
      case 2
      then have "1 \<le> 1 - tr + 2 * m11" using le unfolding ws_def tr_def by simp
      then show ?thesis
        unfolding m from_dcm_def prod.case Let_def tr_def [symmetric] ws_def [symmetric] k(1) 2
        by (simp add: quat_norm_normalised)
    next
      case 3
      then have "1 \<le> 1 - tr + 2 * m22" using le unfolding ws_def tr_def by simp
      then show ?thesis
        unfolding m from_dcm_def prod.case Let_def tr_def [symmetric] ws_def [symmetric] k(1) 3
        by (simp add: quat_norm_normalised eval_nat_numeral)
    next
      case 4
      then have "1 \<le> 1 + tr" using le unfolding ws_def tr_def by simp
      then show ?thesis
        unfolding m from_dcm_def prod.case Let_def tr_def [symmetric] ws_def [symmetric] k(1) 4
        by (simp add: quat_norm_normalised eval_nat_numeral)
    qed
  qed
qed

text \<open>
  C9, as amended.  For every unit surface normal, the frame has the negated normal as
  approach axis \<open>z_axis\<close>; the reference axis is canonical X unless the absolute value
  of its first component of \<open>z_axis\<close> is within \<open>1e-8 + 1e-4\<close> of 1, and canonical Y
  then; \<open>y_axis\<close> is the cross product of \<open>z_axis\<close> and the reference, and \<open>x_axis\<close>
  the cross product of \<open>y_axis\<close> and \<open>z_axis\<close>.  The three axes are mutually orthogonal
  and right-handed and never degenerate, but the cross products are not normalised:
  \<open>x_axis\<close> and \<open>y_axis\<close> both have squared length 1 minus the square of the
  reference's component along \<open>z_axis\<close>, so the matrix handed to \<open>Rotation.from_dcm\<close>
  is orthonormal exactly when the reference is perpendicular to the approach axis.
  \<open>Rotation.from_dcm\<close> returns a unit quaternion for it.
\<close>

theorem grasp_frame_orthogonal_right_handed:
  assumes "dot normal normal = 1"
  shows "case grasp_frame normal of (x_axis, y_axis, z_axis) \<Rightarrow>
           z_axis = vneg normal \<and>
           reference_axis z_axis =
             (if \<bar>\<bar>fst z_axis\<bar> - 1\<bar> \<le> 1 / 10 ^ 8 + 1 / 10 ^ 4 then (0, 1, 0) else (1, 0, 0)) \<and>
           y_axis = cross z_axis (reference_axis z_axis) \<and>
           x_axis = cross y_axis z_axis \<and>
           dot x_axis y_axis = 0 \<and> dot y_axis z_axis = 0 \<and> dot x_axis z_axis = 0 \<and>
           dot z_axis z_axis = 1 \<and>
           dot y_axis y_axis = 1 - (dot (reference_axis z_axis) z_axis)\<^sup>2 \<and>
           dot x_axis x_axis = 1 - (dot (reference_axis z_axis) z_axis)\<^sup>2 \<and>
           0 < dot y_axis y_axis \<and>
           cross x_axis y_axis = vscale (dot y_axis y_axis) z_axis \<and>
           (dot x_axis x_axis = 1 \<and> dot y_axis y_axis = 1
              \<longleftrightarrow> dot (reference_axis z_axis) z_axis = 0) \<and>
           quat_norm (from_dcm (x_axis, y_axis, z_axis)) = 1"
proof -
  define z where "z = vneg normal"
  define r where "r = reference_axis z"
  define y where "y = cross z r"
  define x where "x = cross y z"
  have frame: "grasp_frame normal = (x, y, z)"
    unfolding grasp_frame_def Let_def x_def y_def r_def z_def ..
  have zz: "dot z z = 1" unfolding z_def using assms by (simp add: dot_vneg)
  have rr: "dot r r = 1" unfolding r_def using reference_axis_cases [of z] by auto
  have ref: "r = (if \<bar>\<bar>fst z\<bar> - 1\<bar> \<le> 1 / 10 ^ 8 + 1 / 10 ^ 4 then (0, 1, 0) else (1, 0, 0))"
    unfolding r_def by (cases z) (simp add: reference_axis_def isclose_def)
  have yz: "dot y z = 0" unfolding y_def by (rule dot_cross_left)
  have xy: "dot x y = 0" unfolding x_def by (rule dot_cross_left)
  have xz: "dot x z = 0" unfolding x_def by (rule dot_cross_right)
  have yy: "dot y y = 1 - (dot r z)\<^sup>2"
    unfolding y_def cross_norm zz rr by (simp add: dot_commute)
  have xx: "dot x x = 1 - (dot r z)\<^sup>2"
    unfolding x_def cross_norm zz yz yy by simp
  have "(dot r z)\<^sup>2 < 1" unfolding r_def using zz by (rule reference_axis_not_parallel)
  then have pos: "0 < dot y y" unfolding yy by simp
  have "dot z y = 0" using yz by (simp add: dot_commute)
  then have hand: "cross x y = vscale (dot y y) z"
    unfolding x_def cross_cross by (cases y; cases z) simp
  have iff: "dot x x = 1 \<and> dot y y = 1 \<longleftrightarrow> dot r z = 0"
    unfolding xx yy by simp
  have unit: "quat_norm (from_dcm (x, y, z)) = 1" by (rule from_dcm_unit)
  have zr: "reference_axis z = r" "cross z r = y" "cross y z = x"
    unfolding r_def y_def x_def by simp_all
  have "z = vneg normal \<and>
      reference_axis z =
        (if \<bar>\<bar>fst z\<bar> - 1\<bar> \<le> 1 / 10 ^ 8 + 1 / 10 ^ 4 then (0, 1, 0) else (1, 0, 0)) \<and>
      y = cross z (reference_axis z) \<and>
      x = cross y z \<and>
      dot x y = 0 \<and> dot y z = 0 \<and> dot x z = 0 \<and>
      dot z z = 1 \<and>
      dot y y = 1 - (dot (reference_axis z) z)\<^sup>2 \<and>
      dot x x = 1 - (dot (reference_axis z) z)\<^sup>2 \<and>
      0 < dot y y \<and>
      cross x y = vscale (dot y y) z \<and>
      (dot x x = 1 \<and> dot y y = 1 \<longleftrightarrow> dot (reference_axis z) z = 0) \<and>
      quat_norm (from_dcm (x, y, z)) = 1"
    unfolding zr
    using z_def ref xy yz xz zz yy xx pos hand iff unit by blast
  then show ?thesis unfolding frame prod.case .
qed

theorem grasp_frame_orthogonal_right_handed_witness:
  "dot (3 / 5, 0, 4 / 5) (3 / 5, 0, 4 / 5) = 1 \<and>
   grasp_frame (3 / 5, 0, 4 / 5) = ((16 / 25, 0, - 12 / 25), (0, - 4 / 5, 0), (- 3 / 5, 0, - 4 / 5)) \<and>
   cross (16 / 25, 0, - 12 / 25) (0, - 4 / 5, 0) = vscale (16 / 25) (- 3 / 5, 0, - 4 / 5)"
proof -
  have unit: "dot (3 / 5, 0, 4 / 5) (3 / 5, 0, 4 / 5) = 1" by simp
  have frame: "grasp_frame (3 / 5, 0, 4 / 5)
      = ((16 / 25, 0, - 12 / 25), (0, - 4 / 5, 0), (- 3 / 5, 0, - 4 / 5))"
    by (simp add: grasp_frame_def reference_axis_def isclose_def Let_def)
  from grasp_frame_orthogonal_right_handed [OF unit]
  have "cross (16 / 25, 0, - 12 / 25) (0, - 4 / 5, 0)
      = vscale (dot (0, - 4 / 5, 0) (0, - 4 / 5, 0)) (- 3 / 5, 0, - 4 / 5)"
    unfolding frame prod.case by blast
  then show ?thesis using unit frame by simp
qed

text \<open>
  C9 as stated fails: for the unit normal (3/5, 0, 4/5) the two axes obtained by the
  cross products have squared length 16/25, so the frame is not orthonormal.
\<close>

theorem grasp_frame_not_orthonormal_counterexample:
  "dot (3 / 5, 0, 4 / 5) (3 / 5, 0, 4 / 5) = 1 \<and>
   dot (fst (snd (grasp_frame (3 / 5, 0, 4 / 5)))) (fst (snd (grasp_frame (3 / 5, 0, 4 / 5)))) = 16 / 25 \<and>
   dot (fst (grasp_frame (3 / 5, 0, 4 / 5))) (fst (grasp_frame (3 / 5, 0, 4 / 5))) = 16 / 25"
  by (simp add: grasp_frame_def reference_axis_def isclose_def Let_def)


section \<open>The candidate sampler\<close>

lemma well_formed_first_low_random: "well_formed_random first_low_random"
  by (simp add: well_formed_random_def first_low_random_def)

lemma sample_grasp_point_returns:
  assumes "well_formed_random rng" and "points \<noteq> []" and "length normals = length points"
  shows "\<exists>point normal g'. sample_grasp_point rng g points normals finger_depth
           = Inr ((point, normal), g')"
proof -
  obtain idx g1 where ri: "randint rng g (length points) = (idx, g1)"
    by (cases "randint rng g (length points)")
  have "fst (randint rng g (length points)) < length points"
    using assms(1,2) unfolding well_formed_random_def by simp
  then have idx: "idx < length points" using ri by simp
  have p: "py_index points (int idx) = Inr (points ! idx)" using idx by (rule py_index_nat)
  have n: "py_index normals (int idx) = Inr (normals ! idx)"
    using idx assms(3) by (intro py_index_nat) simp
  obtain grasp_depth g2 where
    un: "uniform rng g1 (- (2 / 10) * finger_depth) ((1 + 2 / 10) * finger_depth) = (grasp_depth, g2)"
    by (cases "uniform rng g1 (- (2 / 10) * finger_depth) ((1 + 2 / 10) * finger_depth)")
  have "sample_grasp_point rng g points normals finger_depth =
      Inr ((vadd (points ! idx) (vscale (finger_depth - grasp_depth) (normals ! idx)),
            normals ! idx), g2)"
    unfolding sample_grasp_point_def Let_def using assms(2) ri p n un by simp
  then show ?thesis by blast
qed

text \<open>
  C8.  With draws that respect numpy's ranges, a non-empty point cloud with one normal
  per point and a non-negative finger depth, the sampler returns the point at the drawn
  index displaced along that point's normal by \<open>finger_depth - grasp_depth\<close>, together
  with the normal.  The index is the draw from \<open>[0, len(points))\<close>, the depth the draw
  between \<open>-0.2 * finger_depth\<close> and \<open>1.2 * finger_depth\<close>, and the displacement lies
  between the same two bounds.
\<close>

theorem sample_grasp_point_displacement:
  assumes "well_formed_random rng" and "points \<noteq> []" and "length normals = length points"
    and "0 \<le> finger_depth"
  shows "\<exists>idx grasp_depth g1 g2.
           randint rng g (length points) = (idx, g1) \<and>
           uniform rng g1 (- (2 / 10) * finger_depth) ((1 + 2 / 10) * finger_depth) = (grasp_depth, g2) \<and>
           idx < length points \<and>
           - (2 / 10) * finger_depth \<le> grasp_depth \<and> grasp_depth \<le> (1 + 2 / 10) * finger_depth \<and>
           sample_grasp_point rng g points normals finger_depth =
             Inr ((vadd (points ! idx) (vscale (finger_depth - grasp_depth) (normals ! idx)),
                   normals ! idx), g2) \<and>
           - (2 / 10) * finger_depth \<le> finger_depth - grasp_depth \<and>
           finger_depth - grasp_depth \<le> (1 + 2 / 10) * finger_depth"
proof -
  obtain idx g1 where ri: "randint rng g (length points) = (idx, g1)"
    by (cases "randint rng g (length points)")
  obtain grasp_depth g2 where
    un: "uniform rng g1 (- (2 / 10) * finger_depth) ((1 + 2 / 10) * finger_depth) = (grasp_depth, g2)"
    by (cases "uniform rng g1 (- (2 / 10) * finger_depth) ((1 + 2 / 10) * finger_depth)")
  have pos: "0 < length points" using assms(2) by simp
  have "fst (randint rng g (length points)) < length points"
    using assms(1) pos unfolding well_formed_random_def by blast
  then have idx: "idx < length points" using ri by simp
  have order: "- (2 / 10) * finger_depth \<le> (1 + 2 / 10) * finger_depth" using assms(4) by simp
  have "- (2 / 10) * finger_depth
        \<le> fst (uniform rng g1 (- (2 / 10) * finger_depth) ((1 + 2 / 10) * finger_depth)) \<and>
      fst (uniform rng g1 (- (2 / 10) * finger_depth) ((1 + 2 / 10) * finger_depth))
        \<le> (1 + 2 / 10) * finger_depth"
    using assms(1) order unfolding well_formed_random_def by blast
  then have depth: "- (2 / 10) * finger_depth \<le> grasp_depth"
    "grasp_depth \<le> (1 + 2 / 10) * finger_depth"
    using un by simp_all
  have p: "py_index points (int idx) = Inr (points ! idx)" using idx by (rule py_index_nat)
  have n: "py_index normals (int idx) = Inr (normals ! idx)"
    using idx assms(3) by (intro py_index_nat) simp
  have res: "sample_grasp_point rng g points normals finger_depth =
      Inr ((vadd (points ! idx) (vscale (finger_depth - grasp_depth) (normals ! idx)),
            normals ! idx), g2)"
    unfolding sample_grasp_point_def Let_def using assms(2) ri p n un by simp
  have disp: "- (2 / 10) * finger_depth \<le> finger_depth - grasp_depth"
    "finger_depth - grasp_depth \<le> (1 + 2 / 10) * finger_depth"
    using depth by simp_all
  show ?thesis using ri un idx depth res disp by blast
qed

theorem sample_grasp_point_displacement_witness:
  "well_formed_random first_low_random \<and> [(1, 2, 3) :: vec3] \<noteq> [] \<and>
   length [(0, 0, 1) :: vec3] = length [(1, 2, 3) :: vec3] \<and> (0::real) \<le> 1 / 20 \<and>
   sample_grasp_point first_low_random () [(1, 2, 3)] [(0, 0, 1)] (1 / 20)
     = Inr (((1, 2, 3 + 6 / 100), (0, 0, 1)), ())"
proof -
  have h: "well_formed_random first_low_random" "[(1, 2, 3) :: vec3] \<noteq> []"
    "length [(0, 0, 1) :: vec3] = length [(1, 2, 3) :: vec3]" "(0::real) \<le> 1 / 20"
    by (simp_all add: well_formed_first_low_random)
  from sample_grasp_point_displacement [OF h, of "()"]
  obtain idx grasp_depth g1 g2 where e:
    "randint first_low_random () (length [(1, 2, 3) :: vec3]) = (idx, g1)"
    "uniform first_low_random g1 (- (2 / 10) * (1 / 20)) ((1 + 2 / 10) * (1 / 20)) = (grasp_depth, g2)"
    "sample_grasp_point first_low_random () [(1, 2, 3)] [(0, 0, 1)] (1 / 20) =
       Inr ((vadd ([(1, 2, 3)] ! idx) (vscale (1 / 20 - grasp_depth) ([(0, 0, 1)] ! idx)),
             [(0, 0, 1)] ! idx), g2)"
    by blast
  have "idx = 0" using e(1) by (simp add: first_low_random_def)
  moreover have "grasp_depth = - (1 / 100)" using e(2) by (simp add: first_low_random_def)
  ultimately show ?thesis using h e(3) by simp
qed


section \<open>The candidate pool\<close>

lemma count_negatives_append:
  "count_negatives success (labels @ [label])
     = count_negatives success labels + (if label = success then 0 else 1)"
  by (simp add: count_negatives_def)

lemma pool_invariant_init: "0 \<le> n \<Longrightarrow> pool_invariant success n [] [] 0"
  by (simp add: pool_invariant_def count_negatives_def)

lemma pool_invariant_step:
  assumes inv: "pool_invariant success n grasps labels num_negatives"
    and room: "int (length grasps) < n"
    and acc: "label = success \<or> num_negatives < n div 2"
  shows "pool_invariant success n (grasps @ [grasp]) (labels @ [label])
           (num_negatives + (if label = success then 0 else 1))"
proof -
  have len: "length labels = length grasps" and cnt: "num_negatives = count_negatives success labels"
    and le: "num_negatives \<le> n div 2"
    and old: "\<And>i. i < length labels \<Longrightarrow> labels ! i \<noteq> success \<Longrightarrow>
         count_negatives success (take i labels) < n div 2"
    using inv unfolding pool_invariant_def by blast+
  have prefix: "count_negatives success (take i (labels @ [label])) < n div 2"
    if "i < length (labels @ [label])" "(labels @ [label]) ! i \<noteq> success" for i
  proof (cases "i < length labels")
    case True
    then show ?thesis using old [of i] that(2) by (simp add: nth_append)
  next
    case False
    then have i: "i = length labels" using that(1) by simp
    then have "label \<noteq> success" using that(2) by simp
    then show ?thesis using acc cnt i by simp
  qed
  show ?thesis
    unfolding pool_invariant_def
    using len room cnt le acc prefix by (auto simp: count_negatives_append)
qed

lemma fill_pool_invariant:
  assumes "fill_pool fuel success n draw w grasps labels num_negatives = Some (Inr ((gs, ls), w'))"
    and "pool_invariant success n grasps labels num_negatives"
  shows "pool_invariant success n gs ls (count_negatives success ls) \<and> int (length gs) = n"
  using assms
proof (induction fuel arbitrary: w grasps labels num_negatives)
  case 0
  then have "\<not> int (length grasps) < n" "gs = grasps" "ls = labels"
    by (auto split: if_splits)
  then show ?case using "0.prems"(2) unfolding pool_invariant_def by auto
next
  case (Suc fuel)
  show ?case
  proof (cases "int (length grasps) < n")
    case False
    then have "gs = grasps" "ls = labels" using Suc.prems(1) by auto
    then show ?thesis using Suc.prems(2) False unfolding pool_invariant_def by auto
  next
    case room: True
    show ?thesis
    proof (cases "draw w")
      case (Inl e)
      then show ?thesis using Suc.prems(1) room by simp
    next
      case (Inr c)
      obtain grasp label w1 where c: "c = ((grasp, label), w1)" by (cases c) auto
      show ?thesis
      proof (cases "label = success \<or> num_negatives < n div 2")
        case True
        then have "fill_pool fuel success n draw w1 (grasps @ [grasp]) (labels @ [label])
            (num_negatives + (if label = success then 0 else 1)) = Some (Inr ((gs, ls), w'))"
          using Suc.prems(1) room Inr c by simp
        moreover have "pool_invariant success n (grasps @ [grasp]) (labels @ [label])
            (num_negatives + (if label = success then 0 else 1))"
          using pool_invariant_step [OF Suc.prems(2) room True] .
        ultimately show ?thesis by (rule Suc.IH)
      next
        case False
        then have "fill_pool fuel success n draw w1 grasps labels num_negatives
            = Some (Inr ((gs, ls), w'))"
          using Suc.prems(1) room Inr c by simp
        then show ?thesis using Suc.prems(2) by (rule Suc.IH)
      qed
    qed
  qed
qed

lemma fill_pool_all_success:
  assumes "\<And>w. \<exists>g w'. draw w = Inr ((g, success), w')"
    and "n - int (length grasps) \<le> int fuel"
  shows "\<exists>gs ls w'. fill_pool fuel success n draw w grasps labels negs = Some (Inr ((gs, ls), w'))"
  using assms(2)
proof (induction fuel arbitrary: w grasps labels negs)
  case 0
  then have "\<not> int (length grasps) < n" by simp
  then show ?case by simp
next
  case (Suc fuel)
  show ?case
  proof (cases "int (length grasps) < n")
    case False
    then show ?thesis by simp
  next
    case True
    obtain g w1 where d: "draw w = Inr ((g, success), w1)" using assms(1) by blast
    have "n - int (length (grasps @ [g])) \<le> int fuel" using Suc.prems by simp
    then obtain gs ls w' where
      "fill_pool fuel success n draw w1 (grasps @ [g]) (labels @ [success]) negs
         = Some (Inr ((gs, ls), w'))"
      using Suc.IH by blast
    then show ?thesis using True d by simp
  qed
qed

lemma draw_candidate_constant_sim:
  assumes "well_formed_random rng" and "points \<noteq> []" and "length normals = length points"
  shows "\<exists>g w'. draw_candidate success rng (constant_sim success wd) points normals finger_depth w
           = Inr ((g, success), w')"
proof -
  obtain g0 s0 where w: "w = (g0, s0)" by (cases w) auto
  obtain point normal g' where
    sp: "sample_grasp_point rng g0 points normals finger_depth = Inr ((point, normal), g')"
    using sample_grasp_point_returns [OF assms] by blast
  obtain c s' where
    ev: "evaluate_grasp_point success (constant_sim success wd) s0 point normal 12
           = Inr ((c, success), s')"
    using evaluate_constant_sim_success by blast
  show ?thesis unfolding draw_candidate_def w using sp ev by simp
qed

lemma generate_scene_pool:
  assumes "0 \<le> n"
    and "generate_scene fuel success n rng sim tsdf points normals finger_depth w
           = Some (Inr (Some a, w'))"
  shows "\<exists>grasps labels.
           fill_pool fuel success n (draw_candidate success rng sim points normals finger_depth)
             w [] [] 0 = Some (Inr ((grasps, labels), w')) \<and>
           a = store_sample success tsdf grasps labels"
  using assms(2) unfolding generate_scene_def
  by (auto split: if_splits option.splits sum.splits prod.splits)

lemma generate_scene_returns:
  assumes "well_formed_random rng" and "points \<noteq> []" and "length normals = length points"
    and "n \<le> int fuel"
  shows "\<exists>a w'. generate_scene fuel success n rng (constant_sim success wd) tsdf points normals
           finger_depth w = Some (Inr (Some a, w'))"
proof -
  have "n - int (length ([] :: grasp list)) \<le> int fuel" using assms(4) by simp
  then obtain gs ls w' where
    "fill_pool fuel success n
       (draw_candidate success rng (constant_sim success wd) points normals finger_depth)
       w [] [] 0 = Some (Inr ((gs, ls), w'))"
    using fill_pool_all_success [of "draw_candidate success rng (constant_sim success wd) points
        normals finger_depth" success n "[]" fuel w "[]" 0]
      draw_candidate_constant_sim [OF assms(1,2,3)]
    by blast
  then show ?thesis unfolding generate_scene_def using assms(2) by (cases w') simp
qed

text \<open>
  C2.  For a quota \<open>num_grasps_per_scene\<close> that is not negative: when the pool loop of
  a scene ends, the pool holds exactly \<open>num_grasps_per_scene\<close> grasps and as many
  labels, at most \<open>num_grasps_per_scene // 2\<close> of the labels are not success, and every
  entry that is not success was appended while fewer than \<open>num_grasps_per_scene // 2\<close>
  such entries stood before it.  The archive of a finalized scene is the one that
  \<open>store_sample\<close> builds from such a pool.  One iteration of the loop appends a success
  candidate always, and a candidate that is not success exactly when the running count
  of negatives is below \<open>num_grasps_per_scene // 2\<close>.
\<close>

theorem pool_has_quota_and_bounded_negatives:
  assumes "0 \<le> n"
  shows "(fill_pool fuel success n draw w [] [] 0 = Some (Inr ((grasps, labels), w')) \<longrightarrow>
           int (length grasps) = n \<and> length labels = length grasps \<and>
           count_negatives success labels \<le> n div 2 \<and>
           (\<forall>i < length labels. labels ! i \<noteq> success \<longrightarrow>
              count_negatives success (take i labels) < n div 2)) \<and>
         (generate_scene fuel success n rng sim tsdf points normals finger_depth v
            = Some (Inr (Some a, v')) \<longrightarrow>
           (\<exists>gs ls. a = store_sample success tsdf gs ls \<and>
              int (length gs) = n \<and> length ls = length gs \<and>
              count_negatives success ls \<le> n div 2)) \<and>
         (\<forall>k w0 gs ls negs g label w1.
            int (length gs) < n \<and> draw w0 = Inr ((g, label), w1) \<longrightarrow>
            fill_pool (Suc k) success n draw w0 gs ls negs =
              (if label = success then fill_pool k success n draw w1 (gs @ [g]) (ls @ [label]) negs
               else if negs < n div 2
                 then fill_pool k success n draw w1 (gs @ [g]) (ls @ [label]) (negs + 1)
                 else fill_pool k success n draw w1 gs ls negs))"
proof (intro conjI impI)
  assume "fill_pool fuel success n draw w [] [] 0 = Some (Inr ((grasps, labels), w'))"
  then have "pool_invariant success n grasps labels (count_negatives success labels) \<and>
      int (length grasps) = n"
    using pool_invariant_init [OF assms] by (rule fill_pool_invariant)
  then show "int (length grasps) = n" "length labels = length grasps"
    "count_negatives success labels \<le> n div 2"
    "\<forall>i < length labels. labels ! i \<noteq> success \<longrightarrow>
       count_negatives success (take i labels) < n div 2"
    unfolding pool_invariant_def by blast+
next
  assume "generate_scene fuel success n rng sim tsdf points normals finger_depth v
      = Some (Inr (Some a, v'))"
  then obtain gs ls where pool:
    "fill_pool fuel success n (draw_candidate success rng sim points normals finger_depth)
       v [] [] 0 = Some (Inr ((gs, ls), v'))"
    "a = store_sample success tsdf gs ls"
    using generate_scene_pool [OF assms] by blast
  have "pool_invariant success n gs ls (count_negatives success ls) \<and> int (length gs) = n"
    using pool(1) pool_invariant_init [OF assms] by (rule fill_pool_invariant)
  then show "\<exists>gs ls. a = store_sample success tsdf gs ls \<and>
      int (length gs) = n \<and> length ls = length gs \<and> count_negatives success ls \<le> n div 2"
    using pool(2) unfolding pool_invariant_def by blast
next
  show "\<forall>k w0 gs ls negs g label w1.
      int (length gs) < n \<and> draw w0 = Inr ((g, label), w1) \<longrightarrow>
      fill_pool (Suc k) success n draw w0 gs ls negs =
        (if label = success then fill_pool k success n draw w1 (gs @ [g]) (ls @ [label]) negs
         else if negs < n div 2
           then fill_pool k success n draw w1 (gs @ [g]) (ls @ [label]) (negs + 1)
           else fill_pool k success n draw w1 gs ls negs)"
    by auto
qed

theorem pool_has_quota_and_bounded_negatives_witness:
  "(0::int) \<le> 4 \<and>
   map_option (map_sum id (\<lambda>r. (length (fst (fst r)), snd (fst r), snd r)))
     (fill_pool 6 1 4 (scripted_draw [0, 0, 0, 1, 0, 1]) 0 [] [] 0)
     = Some (Inr (4, [0, 0, 1, 1], 6)) \<and>
   count_negatives 1 [0, 0, 1, 1] = 2 \<and>
   count_negatives 1 (take 1 [0, 0, 1, 1]) = 1 \<and>
   (\<exists>gs ls v'.
      generate_scene 4 1 4 first_low_random (constant_sim 1 (1 / 20)) test_tsdf
        [(1, 2, 3)] [(0, 0, 1)] (1 / 20) ((), ())
        = Some (Inr (Some (store_sample 1 test_tsdf gs ls), v')) \<and>
      length gs = 4 \<and> length ls = 4 \<and> count_negatives 1 ls \<le> 2)"
proof -
  have h1: "(0::int) \<le> 4" by simp
  have run: "fill_pool 6 1 4 (scripted_draw [0, 0, 0, 1, 0, 1]) 0 [] [] 0
      = Some (Inr ((replicate 4 (Grasp (Transform rot_identity (0, 0, 0)) 0), [0, 0, 1, 1]), 6))"
    by (simp add: eval_nat_numeral scripted_draw_def)
  obtain a v' where scene:
    "generate_scene 4 1 4 first_low_random (constant_sim 1 (1 / 20)) test_tsdf
       [(1, 2, 3)] [(0, 0, 1)] (1 / 20) ((), ()) = Some (Inr (Some a, v'))"
    using generate_scene_returns [of first_low_random "[(1, 2, 3)]" "[(0, 0, 1)]" 4 4 1 "1 / 20"
        test_tsdf "1 / 20" "((), ())"] well_formed_first_low_random
    by auto
  have "int (length (replicate 4 (Grasp (Transform rot_identity (0, 0, 0)) 0))) = 4 \<and>
      length [0, 0, 1, 1 :: int] = length (replicate 4 (Grasp (Transform rot_identity (0, 0, 0)) 0)) \<and>
      count_negatives 1 [0, 0, 1, 1] \<le> 4 div 2 \<and>
      (\<forall>i < length [0, 0, 1, 1 :: int]. [0, 0, 1, 1] ! i \<noteq> (1::int) \<longrightarrow>
         count_negatives 1 (take i [0, 0, 1, 1]) < 4 div 2)"
    using pool_has_quota_and_bounded_negatives [OF h1, THEN conjunct1, THEN mp, OF run] .
  have cnt: "count_negatives 1 [0, 0, 1, 1] = 2" "count_negatives 1 (take 1 [0, 0, 1, 1]) = 1"
    by (simp_all add: count_negatives_def)
  have "\<exists>gs ls. a = store_sample 1 test_tsdf gs ls \<and> int (length gs) = 4 \<and>
      length ls = length gs \<and> count_negatives 1 ls \<le> 4 div 2"
    using pool_has_quota_and_bounded_negatives
      [OF h1, THEN conjunct2, THEN conjunct1, THEN mp, OF scene] .
  then obtain gs ls where pool: "a = store_sample 1 test_tsdf gs ls" "int (length gs) = 4"
    "length ls = length gs" "count_negatives 1 ls \<le> 4 div 2"
    by blast
  have "\<exists>gs ls v'.
      generate_scene 4 1 4 first_low_random (constant_sim 1 (1 / 20)) test_tsdf
        [(1, 2, 3)] [(0, 0, 1)] (1 / 20) ((), ())
        = Some (Inr (Some (store_sample 1 test_tsdf gs ls), v')) \<and>
      length gs = 4 \<and> length ls = 4 \<and> count_negatives 1 ls \<le> 2"
    using scene pool by (intro exI [of _ gs] exI [of _ ls] exI [of _ v']) simp
  then show ?thesis using h1 run cnt by simp
qed


section \<open>The label volumes\<close>

lemma from_rotvec_half_turn: "from_rotvec (vscale pi (0, 0, 1)) = half_turn_z"
proof -
  have "\<not> pi \<le> 1 / 1000" using pi_ge_two by simp
  then show ?thesis by (simp add: from_rotvec_def half_turn_z_def Let_def)
qed

lemma rot_mul_half_turn: "rot_mul (Quat x y z w) half_turn_z = Quat y (- x) w (- z)"
  by (simp add: half_turn_z_def)

lemma store_grasp_out:
  "out_of_grid (resolution tsdf) (voxel_of tsdf g) \<Longrightarrow> store_grasp success tsdf vols (g, label) = vols"
  by (simp add: store_grasp_def voxel_of_def Let_def)

lemma store_grasp_in:
  assumes "\<not> out_of_grid (resolution tsdf) (voxel_of tsdf g)"
  shows "store_grasp success tsdf vols (g, label) = vols
     \<lparr>qual_vol := (qual_vol vols)(voxel_of tsdf g := label2quality success label),
      rot_vol0 := (rot_vol0 vols)(voxel_of tsdf g := as_quat (rotation (pose g))),
      rot_vol1 := (rot_vol1 vols)(voxel_of tsdf g := as_quat (rot_mul (rotation (pose g)) half_turn_z)),
      width_vol := (width_vol vols)(voxel_of tsdf g := width g),
      mask := (mask vols)(voxel_of tsdf g := 1)\<rparr>"
proof -
  have kept: "rotation (pose (to_voxel_coordinates g (voxel_size tsdf))) = rotation (pose g)"
    "width (to_voxel_coordinates g (voxel_size tsdf)) = width g"
    by (simp_all add: to_voxel_coordinates_def)
  show ?thesis
    using assms
    unfolding store_grasp_def prod.case Let_def from_rotvec_half_turn kept voxel_of_def [symmetric]
    by simp
qed

lemma store_grasp_other:
  assumes "voxel_of tsdf g \<noteq> v"
  shows "qual_vol (store_grasp success tsdf vols (g, label)) v = qual_vol vols v"
    and "rot_vol0 (store_grasp success tsdf vols (g, label)) v = rot_vol0 vols v"
    and "rot_vol1 (store_grasp success tsdf vols (g, label)) v = rot_vol1 vols v"
    and "width_vol (store_grasp success tsdf vols (g, label)) v = width_vol vols v"
    and "mask (store_grasp success tsdf vols (g, label)) v = mask vols v"
  using assms
  by (cases "out_of_grid (resolution tsdf) (voxel_of tsdf g)";
      simp add: store_grasp_out store_grasp_in)+

lemma store_grasp_mask_kept:
  "mask vols v = 1 \<Longrightarrow> mask (store_grasp success tsdf vols p) v = 1"
proof -
  obtain g label where p: "p = (g, label)" by (cases p) auto
  assume "mask vols v = 1"
  then show ?thesis
    unfolding p
    by (cases "out_of_grid (resolution tsdf) (voxel_of tsdf g)")
       (simp_all add: store_grasp_out store_grasp_in)
qed

lemma foldl_store_other:
  assumes "\<And>p. p \<in> set ps \<Longrightarrow> voxel_of tsdf (fst p) \<noteq> v"
  shows "qual_vol (foldl (store_grasp success tsdf) vols ps) v = qual_vol vols v \<and>
         rot_vol0 (foldl (store_grasp success tsdf) vols ps) v = rot_vol0 vols v \<and>
         rot_vol1 (foldl (store_grasp success tsdf) vols ps) v = rot_vol1 vols v \<and>
         width_vol (foldl (store_grasp success tsdf) vols ps) v = width_vol vols v \<and>
         mask (foldl (store_grasp success tsdf) vols ps) v = mask vols v"
  using assms
proof (induction ps arbitrary: vols)
  case Nil
  then show ?case by simp
next
  case (Cons p ps)
  obtain g label where p: "p = (g, label)" by (cases p) auto
  have ne: "voxel_of tsdf g \<noteq> v" using Cons.prems [of p] p by simp
  have rest: "\<And>q. q \<in> set ps \<Longrightarrow> voxel_of tsdf (fst q) \<noteq> v" using Cons.prems by simp
  show ?case
    using Cons.IH [OF rest, of "store_grasp success tsdf vols p"] store_grasp_other [OF ne]
    unfolding p by simp
qed

lemma foldl_store_mask_kept:
  "mask vols v = 1 \<Longrightarrow> mask (foldl (store_grasp success tsdf) vols ps) v = 1"
  by (induction ps arbitrary: vols) (simp_all add: store_grasp_mask_kept)

lemma sample_fields:
  "qual_vol (store_sample success tsdf grasps labels)
     = qual_vol (foldl (store_grasp success tsdf) zero_volumes (zip grasps labels))"
  "rot_vol0 (store_sample success tsdf grasps labels)
     = rot_vol0 (foldl (store_grasp success tsdf) zero_volumes (zip grasps labels))"
  "rot_vol1 (store_sample success tsdf grasps labels)
     = rot_vol1 (foldl (store_grasp success tsdf) zero_volumes (zip grasps labels))"
  "width_vol (store_sample success tsdf grasps labels)
     = width_vol (foldl (store_grasp success tsdf) zero_volumes (zip grasps labels))"
  "mask (store_sample success tsdf grasps labels)
     = mask (foldl (store_grasp success tsdf) zero_volumes (zip grasps labels))"
  "tsdf_vol (store_sample success tsdf grasps labels) = get_volume tsdf"
  by (simp_all add: store_sample_def volumes.defs)

lemma foldl_store_split:
  assumes "m < length ps"
  shows "foldl (store_grasp success tsdf) vols ps =
         foldl (store_grasp success tsdf)
           (store_grasp success tsdf (foldl (store_grasp success tsdf) vols (take m ps)) (ps ! m))
           (drop (Suc m) ps)"
proof -
  have "ps = take m ps @ ps ! m # drop (Suc m) ps" using assms by (rule id_take_nth_drop)
  then have "foldl (store_grasp success tsdf) vols ps =
      foldl (store_grasp success tsdf) vols (take m ps @ ps ! m # drop (Suc m) ps)"
    by simp
  then show ?thesis by simp
qed

lemma stored_mask:
  assumes "m < length grasps" and "m < length labels"
    and "\<not> out_of_grid (resolution tsdf) (voxel_of tsdf (grasps ! m))"
  shows "mask (store_sample success tsdf grasps labels) (voxel_of tsdf (grasps ! m)) = 1"
proof -
  define ps where "ps = zip grasps labels"
  define before where "before = foldl (store_grasp success tsdf) zero_volumes (take m ps)"
  have m: "m < length ps" using assms(1,2) unfolding ps_def by simp
  have pm: "ps ! m = (grasps ! m, labels ! m)" using assms(1,2) unfolding ps_def by simp
  have "mask (store_grasp success tsdf before (ps ! m)) (voxel_of tsdf (grasps ! m)) = 1"
    unfolding pm by (simp add: store_grasp_in [OF assms(3)])
  then have "mask (foldl (store_grasp success tsdf) (store_grasp success tsdf before (ps ! m))
      (drop (Suc m) ps)) (voxel_of tsdf (grasps ! m)) = 1"
    by (rule foldl_store_mask_kept)
  then show ?thesis
    unfolding sample_fields ps_def [symmetric] foldl_store_split [OF m] before_def .
qed

lemma stored_values:
  assumes "m < length grasps" and "m < length labels"
    and "\<not> out_of_grid (resolution tsdf) (voxel_of tsdf (grasps ! m))"
    and "\<And>j. m < j \<Longrightarrow> j < length grasps \<Longrightarrow> j < length labels \<Longrightarrow>
           voxel_of tsdf (grasps ! j) \<noteq> voxel_of tsdf (grasps ! m)"
  shows "qual_vol (store_sample success tsdf grasps labels) (voxel_of tsdf (grasps ! m))
           = label2quality success (labels ! m)"
    and "width_vol (store_sample success tsdf grasps labels) (voxel_of tsdf (grasps ! m))
           = width (grasps ! m)"
    and "rot_vol0 (store_sample success tsdf grasps labels) (voxel_of tsdf (grasps ! m))
           = as_quat (rotation (pose (grasps ! m)))"
    and "rot_vol1 (store_sample success tsdf grasps labels) (voxel_of tsdf (grasps ! m))
           = as_quat (rot_mul (rotation (pose (grasps ! m))) half_turn_z)"
proof -
  define ps where "ps = zip grasps labels"
  define before where "before = foldl (store_grasp success tsdf) zero_volumes (take m ps)"
  define v where "v = voxel_of tsdf (grasps ! m)"
  define here where "here = store_grasp success tsdf before (ps ! m)"
  have m: "m < length ps" using assms(1,2) unfolding ps_def by simp
  have pm: "ps ! m = (grasps ! m, labels ! m)" using assms(1,2) unfolding ps_def by simp
  have later: "voxel_of tsdf (fst p) \<noteq> v" if "p \<in> set (drop (Suc m) ps)" for p
  proof -
    from that obtain i where i: "i < length (drop (Suc m) ps)" "p = drop (Suc m) ps ! i"
      by (auto simp: in_set_conv_nth)
    have j: "Suc m + i < length ps" using i(1) by simp
    then have jj: "Suc m + i < length grasps" "Suc m + i < length labels"
      unfolding ps_def by simp_all
    have "p = ps ! (Suc m + i)" using i by simp
    then have "fst p = grasps ! (Suc m + i)" using jj unfolding ps_def by simp
    then show ?thesis using assms(4) [of "Suc m + i"] jj unfolding v_def by simp
  qed
  have rest: "qual_vol (foldl (store_grasp success tsdf) here (drop (Suc m) ps)) v = qual_vol here v \<and>
      rot_vol0 (foldl (store_grasp success tsdf) here (drop (Suc m) ps)) v = rot_vol0 here v \<and>
      rot_vol1 (foldl (store_grasp success tsdf) here (drop (Suc m) ps)) v = rot_vol1 here v \<and>
      width_vol (foldl (store_grasp success tsdf) here (drop (Suc m) ps)) v = width_vol here v \<and>
      mask (foldl (store_grasp success tsdf) here (drop (Suc m) ps)) v = mask here v"
    using later by (rule foldl_store_other)
  have at: "qual_vol here v = label2quality success (labels ! m)"
    "width_vol here v = width (grasps ! m)"
    "rot_vol0 here v = as_quat (rotation (pose (grasps ! m)))"
    "rot_vol1 here v = as_quat (rot_mul (rotation (pose (grasps ! m))) half_turn_z)"
    unfolding here_def pm v_def by (simp_all add: store_grasp_in [OF assms(3)])
  have whole: "foldl (store_grasp success tsdf) zero_volumes ps
      = foldl (store_grasp success tsdf) here (drop (Suc m) ps)"
    unfolding here_def before_def by (rule foldl_store_split [OF m])
  show "qual_vol (store_sample success tsdf grasps labels) (voxel_of tsdf (grasps ! m))
           = label2quality success (labels ! m)"
    and "width_vol (store_sample success tsdf grasps labels) (voxel_of tsdf (grasps ! m))
           = width (grasps ! m)"
    and "rot_vol0 (store_sample success tsdf grasps labels) (voxel_of tsdf (grasps ! m))
           = as_quat (rotation (pose (grasps ! m)))"
    and "rot_vol1 (store_sample success tsdf grasps labels) (voxel_of tsdf (grasps ! m))
           = as_quat (rot_mul (rotation (pose (grasps ! m))) half_turn_z)"
    unfolding sample_fields ps_def [symmetric] whole v_def [symmetric]
    using rest at by simp_all
qed

lemma sole_out_of_grid_mask:
  assumes "out_of_grid (resolution tsdf) (voxel_of tsdf g)"
  shows "mask (store_sample success tsdf [g] [label]) v = 0"
  unfolding sample_fields using store_grasp_out [OF assms] by (simp add: zero_volumes_def)

lemma voxel_of_grasp_at:
  "voxel_of test_tsdf (grasp_at (of_int i / 100, of_int j / 100, of_int k / 100) w) = (i, j, k)"
  by (simp add: voxel_of_def test_tsdf_def grasp_at_def Grasp_def Transform_def
      to_voxel_coordinates_def voxel_index_def np_round_def)

text \<open>
  C5.  For a grasp written to the volumes, the symmetric rotation channel holds the
  quaternion of the grasp orientation composed with the rotation by the rotation vector
  pi times the z axis; that rotation is the unit quaternion (0, 0, 1, 0), the half turn
  about z.  The product has the norm of the orientation, so it is a unit quaternion for
  a unit orientation.  Composing with the half turn once more gives the negated
  quaternion of the orientation, which is the same rotation.
\<close>

theorem symmetric_channel_is_half_turn_involution:
  "(\<not> out_of_grid (resolution tsdf) (voxel_of tsdf g) \<longrightarrow>
      rot_vol1 (store_grasp success tsdf vols (g, label)) (voxel_of tsdf g)
        = as_quat (rot_mul (rotation (pose g)) (from_rotvec (vscale pi (0, 0, 1)))) \<and>
      rot_vol0 (store_grasp success tsdf vols (g, label)) (voxel_of tsdf g)
        = as_quat (rotation (pose g))) \<and>
   from_rotvec (vscale pi (0, 0, 1)) = Quat 0 0 1 0 \<and>
   from_rotvec (vscale pi (0, 0, 1)) = from_euler_z pi \<and>
   quat_norm (from_rotvec (vscale pi (0, 0, 1))) = 1 \<and>
   quat_norm (rot_mul R (from_rotvec (vscale pi (0, 0, 1)))) = quat_norm R \<and>
   rot_mul (rot_mul R (from_rotvec (vscale pi (0, 0, 1)))) (from_rotvec (vscale pi (0, 0, 1)))
     = quat_neg R \<and>
   as_dcm (quat_neg R) = as_dcm R"
proof -
  obtain x y z w where R: "R = Quat x y z w" by (cases R) auto
  have store: "\<not> out_of_grid (resolution tsdf) (voxel_of tsdf g) \<longrightarrow>
      rot_vol1 (store_grasp success tsdf vols (g, label)) (voxel_of tsdf g)
        = as_quat (rot_mul (rotation (pose g)) (from_rotvec (vscale pi (0, 0, 1)))) \<and>
      rot_vol0 (store_grasp success tsdf vols (g, label)) (voxel_of tsdf g)
        = as_quat (rotation (pose g))"
    unfolding from_rotvec_half_turn by (simp add: store_grasp_in)
  have half: "from_rotvec (vscale pi (0, 0, 1)) = Quat 0 0 1 0"
    unfolding from_rotvec_half_turn half_turn_z_def ..
  have euler: "from_rotvec (vscale pi (0, 0, 1)) = from_euler_z pi"
    unfolding half by (simp add: from_euler_z_def)
  have unit: "quat_norm (from_rotvec (vscale pi (0, 0, 1))) = 1"
    unfolding half by (simp add: quat_norm_def)
  have prod: "rot_mul R (from_rotvec (vscale pi (0, 0, 1))) = Quat y (- x) w (- z)"
    unfolding from_rotvec_half_turn R by (rule rot_mul_half_turn)
  have norm: "quat_norm (rot_mul R (from_rotvec (vscale pi (0, 0, 1)))) = quat_norm R"
    unfolding prod unfolding R by (simp add: quat_norm_def add.commute add.left_commute)
  have twice: "rot_mul (rot_mul R (from_rotvec (vscale pi (0, 0, 1))))
      (from_rotvec (vscale pi (0, 0, 1))) = quat_neg R"
    unfolding prod unfolding from_rotvec_half_turn rot_mul_half_turn
    unfolding R by (simp add: quat_neg_def)
  have same: "as_dcm (quat_neg R) = as_dcm R"
    unfolding R by (simp add: quat_neg_def as_dcm_def)
  show ?thesis using store half euler unit norm twice same by blast
qed

theorem symmetric_channel_is_half_turn_involution_witness:
  "\<not> out_of_grid 40 (voxel_of \<lparr>voxel_size = 1, resolution = 40, get_volume = (\<lambda>_. 0)\<rparr>
        (Grasp (Transform (Quat 0 0 0 1) (3, 4, 5)) (1 / 20))) \<and>
   rot_vol1 (store_grasp 1 \<lparr>voxel_size = 1, resolution = 40, get_volume = (\<lambda>_. 0)\<rparr> zero_volumes
        (Grasp (Transform (Quat 0 0 0 1) (3, 4, 5)) (1 / 20), 1)) (3, 4, 5) = (0, 0, 1, 0)"
proof -
  define tsdf where "tsdf = \<lparr>voxel_size = 1, resolution = 40, get_volume = (\<lambda>_. 0 :: real)\<rparr>"
  define g where "g = Grasp (Transform (Quat 0 0 0 1) (3, 4, 5)) (1 / 20)"
  have vox: "voxel_of tsdf g = (3, 4, 5)"
    by (simp add: voxel_of_def tsdf_def g_def Grasp_def Transform_def to_voxel_coordinates_def
        voxel_index_def np_round_def)
  have inside: "\<not> out_of_grid (resolution tsdf) (voxel_of tsdf g)"
    unfolding vox by (simp add: out_of_grid_def tsdf_def)
  from symmetric_channel_is_half_turn_involution [of tsdf g 1 zero_volumes 1 "Quat 0 0 0 1"] inside
  have "rot_vol1 (store_grasp 1 tsdf zero_volumes (g, 1)) (voxel_of tsdf g)
      = as_quat (rot_mul (rotation (pose g)) (from_rotvec (vscale pi (0, 0, 1))))"
    and "from_rotvec (vscale pi (0, 0, 1)) = Quat 0 0 1 0"
    by blast+
  then have "rot_vol1 (store_grasp 1 tsdf zero_volumes (g, 1)) (3, 4, 5) = (0, 0, 1, 0)"
    unfolding vox by (simp add: g_def Grasp_def Transform_def as_quat_def)
  then show ?thesis using inside unfolding tsdf_def g_def by simp
qed

text \<open>
  C6.  A pair whose rounded voxel index has a coordinate outside
  \<open>[0, resolution - 1]\<close> leaves all five volumes as they are: one step of the loop
  returns the volumes unchanged, the archive is the one of the pool without the pair, and
  for a pool of this pair alone the mask is 0 at every cell.  The pool loop does not look
  at the index: the pair is appended under the same condition as any other, so it
  counts toward the quota and no other candidate is drawn in its place.
\<close>

theorem out_of_grid_pair_writes_nothing:
  assumes "out_of_grid (resolution tsdf) (voxel_of tsdf g)"
  shows "store_grasp success tsdf vols (g, label) = vols \<and>
         (length gs1 = length ls1 \<longrightarrow>
            store_sample success tsdf (gs1 @ g # gs2) (ls1 @ label # ls2)
              = store_sample success tsdf (gs1 @ gs2) (ls1 @ ls2)) \<and>
         (\<forall>v. mask (store_sample success tsdf [g] [label]) v = 0) \<and>
         (\<forall>k n draw w0 w1 gs ls negs.
            int (length gs) < n \<and> draw w0 = Inr ((g, label), w1) \<and>
            (label = success \<or> negs < n div 2) \<longrightarrow>
            fill_pool (Suc k) success n draw w0 gs ls negs =
              fill_pool k success n draw w1 (gs @ [g]) (ls @ [label])
                (negs + (if label = success then 0 else 1)))"
proof -
  have one: "store_grasp success tsdf vols' (g, label) = vols'" for vols'
    using assms by (rule store_grasp_out)
  have pool: "store_sample success tsdf (gs1 @ g # gs2) (ls1 @ label # ls2)
      = store_sample success tsdf (gs1 @ gs2) (ls1 @ ls2)" if "length gs1 = length ls1"
    unfolding store_sample_def using that one by simp
  have alone: "\<forall>v. mask (store_sample success tsdf [g] [label]) v = 0"
    using sole_out_of_grid_mask [OF assms] by blast
  have counted: "\<forall>k n draw w0 w1 gs ls negs.
      int (length gs) < n \<and> draw w0 = Inr ((g, label), w1) \<and>
      (label = success \<or> negs < n div 2) \<longrightarrow>
      fill_pool (Suc k) success n draw w0 gs ls negs =
        fill_pool k success n draw w1 (gs @ [g]) (ls @ [label])
          (negs + (if label = success then 0 else 1))"
    by auto
  show ?thesis using one pool alone counted by blast
qed

theorem out_of_grid_pair_writes_nothing_witness:
  "out_of_grid (resolution test_tsdf) (voxel_of test_tsdf (grasp_at (50 / 100, 0, - 1 / 100) (1 / 20))) \<and>
   store_grasp 1 test_tsdf zero_volumes (grasp_at (50 / 100, 0, - 1 / 100) (1 / 20), 1) = zero_volumes \<and>
   mask (store_sample 1 test_tsdf [grasp_at (50 / 100, 0, - 1 / 100) (1 / 20)] [1]) (39, 0, 0) = 0"
proof -
  have "voxel_of test_tsdf (grasp_at (of_int 50 / 100, of_int 0 / 100, of_int (- 1) / 100) (1 / 20))
      = (50, 0, - 1)"
    by (rule voxel_of_grasp_at)
  then have vox: "voxel_of test_tsdf (grasp_at (50 / 100, 0, - 1 / 100) (1 / 20)) = (50, 0, - 1)"
    by simp
  have out: "out_of_grid (resolution test_tsdf)
      (voxel_of test_tsdf (grasp_at (50 / 100, 0, - 1 / 100) (1 / 20)))"
    unfolding vox by (simp add: out_of_grid_def test_tsdf_def)
  from out_of_grid_pair_writes_nothing [OF out, of 1 zero_volumes 1]
  show ?thesis using out by blast
qed

text \<open>
  C7, as amended.  For every pair of the pool whose index is inside the grid, the mask
  of the archive is 1 at that index.  When no later pair of the pool has the same
  index, the archive holds there quality 1 for the label success and 0 otherwise, the
  gripper opening of the grasp as width, and the four components of the grasp
  orientation in the primary rotation channel.  A pool of one pair outside the grid
  leaves the mask 0 at every cell.
\<close>

theorem in_grid_pair_is_stored:
  "(m < length grasps \<and> m < length labels \<and>
    \<not> out_of_grid (resolution tsdf) (voxel_of tsdf (grasps ! m)) \<longrightarrow>
      mask (store_sample success tsdf grasps labels) (voxel_of tsdf (grasps ! m)) = 1) \<and>
   (m < length grasps \<and> m < length labels \<and>
    \<not> out_of_grid (resolution tsdf) (voxel_of tsdf (grasps ! m)) \<and>
    (\<forall>j. m < j \<and> j < length grasps \<and> j < length labels \<longrightarrow>
       voxel_of tsdf (grasps ! j) \<noteq> voxel_of tsdf (grasps ! m)) \<longrightarrow>
      qual_vol (store_sample success tsdf grasps labels) (voxel_of tsdf (grasps ! m))
        = (if labels ! m = success then 1 else 0) \<and>
      width_vol (store_sample success tsdf grasps labels) (voxel_of tsdf (grasps ! m))
        = width (grasps ! m) \<and>
      rot_vol0 (store_sample success tsdf grasps labels) (voxel_of tsdf (grasps ! m))
        = (qx (rotation (pose (grasps ! m))), qy (rotation (pose (grasps ! m))),
           qz (rotation (pose (grasps ! m))), qw (rotation (pose (grasps ! m))))) \<and>
   (out_of_grid (resolution tsdf) (voxel_of tsdf g) \<longrightarrow>
      (\<forall>v. mask (store_sample success tsdf [g] [label]) v = 0))"
proof (intro conjI impI)
  assume "m < length grasps \<and> m < length labels \<and>
    \<not> out_of_grid (resolution tsdf) (voxel_of tsdf (grasps ! m))"
  then show "mask (store_sample success tsdf grasps labels) (voxel_of tsdf (grasps ! m)) = 1"
    using stored_mask by blast
next
  assume a: "m < length grasps \<and> m < length labels \<and>
    \<not> out_of_grid (resolution tsdf) (voxel_of tsdf (grasps ! m)) \<and>
    (\<forall>j. m < j \<and> j < length grasps \<and> j < length labels \<longrightarrow>
       voxel_of tsdf (grasps ! j) \<noteq> voxel_of tsdf (grasps ! m))"
  then have m: "m < length grasps" "m < length labels"
    and inside: "\<not> out_of_grid (resolution tsdf) (voxel_of tsdf (grasps ! m))"
    and last: "\<And>j. m < j \<Longrightarrow> j < length grasps \<Longrightarrow> j < length labels \<Longrightarrow>
       voxel_of tsdf (grasps ! j) \<noteq> voxel_of tsdf (grasps ! m)"
    by blast+
  note vals = stored_values [OF m inside last]
  show "qual_vol (store_sample success tsdf grasps labels) (voxel_of tsdf (grasps ! m))
      = (if labels ! m = success then 1 else 0)"
    using vals(1) by (simp add: label2quality_def)
  show "width_vol (store_sample success tsdf grasps labels) (voxel_of tsdf (grasps ! m))
      = width (grasps ! m)"
    using vals(2) by simp
  show "rot_vol0 (store_sample success tsdf grasps labels) (voxel_of tsdf (grasps ! m))
      = (qx (rotation (pose (grasps ! m))), qy (rotation (pose (grasps ! m))),
         qz (rotation (pose (grasps ! m))), qw (rotation (pose (grasps ! m))))"
    using vals(3) by (simp add: as_quat_def)
next
  assume "out_of_grid (resolution tsdf) (voxel_of tsdf g)"
  then show "\<forall>v. mask (store_sample success tsdf [g] [label]) v = 0"
    using sole_out_of_grid_mask by blast
qed

theorem in_grid_pair_is_stored_witness:
  "\<not> out_of_grid (resolution test_tsdf) (voxel_of test_tsdf (grasp_at (3 / 100, 4 / 100, 5 / 100) (1 / 20))) \<and>
   voxel_of test_tsdf (grasp_at (50 / 100, 0, 0) (1 / 10)) \<noteq>
     voxel_of test_tsdf (grasp_at (3 / 100, 4 / 100, 5 / 100) (1 / 20)) \<and>
   out_of_grid (resolution test_tsdf) (voxel_of test_tsdf (grasp_at (50 / 100, 0, 0) (1 / 10))) \<and>
   mask (store_sample 1 test_tsdf
           [grasp_at (3 / 100, 4 / 100, 5 / 100) (1 / 20), grasp_at (50 / 100, 0, 0) (1 / 10)] [1, 0])
     (3, 4, 5) = 1 \<and>
   qual_vol (store_sample 1 test_tsdf
           [grasp_at (3 / 100, 4 / 100, 5 / 100) (1 / 20), grasp_at (50 / 100, 0, 0) (1 / 10)] [1, 0])
     (3, 4, 5) = 1 \<and>
   width_vol (store_sample 1 test_tsdf
           [grasp_at (3 / 100, 4 / 100, 5 / 100) (1 / 20), grasp_at (50 / 100, 0, 0) (1 / 10)] [1, 0])
     (3, 4, 5) = 1 / 20 \<and>
   rot_vol0 (store_sample 1 test_tsdf
           [grasp_at (3 / 100, 4 / 100, 5 / 100) (1 / 20), grasp_at (50 / 100, 0, 0) (1 / 10)] [1, 0])
     (3, 4, 5) = (0, 0, 0, 1) \<and>
   mask (store_sample 1 test_tsdf [grasp_at (50 / 100, 0, 0) (1 / 10)] [0]) (39, 0, 0) = 0"
proof -
  define g1 where "g1 = grasp_at (3 / 100, 4 / 100, 5 / 100) (1 / 20)"
  define g2 where "g2 = grasp_at (50 / 100, 0, 0) (1 / 10)"
  have "voxel_of test_tsdf (grasp_at (of_int 3 / 100, of_int 4 / 100, of_int 5 / 100) (1 / 20)) = (3, 4, 5)"
    by (rule voxel_of_grasp_at)
  then have v1: "voxel_of test_tsdf g1 = (3, 4, 5)" unfolding g1_def by simp
  have "voxel_of test_tsdf (grasp_at (of_int 50 / 100, of_int 0 / 100, of_int 0 / 100) (1 / 10)) = (50, 0, 0)"
    by (rule voxel_of_grasp_at)
  then have v2: "voxel_of test_tsdf g2 = (50, 0, 0)" unfolding g2_def by simp
  have inside: "\<not> out_of_grid (resolution test_tsdf) (voxel_of test_tsdf g1)"
    unfolding v1 by (simp add: out_of_grid_def test_tsdf_def)
  have outside: "out_of_grid (resolution test_tsdf) (voxel_of test_tsdf g2)"
    unfolding v2 by (simp add: out_of_grid_def test_tsdf_def)
  have differ: "voxel_of test_tsdf g2 \<noteq> voxel_of test_tsdf g1" unfolding v1 v2 by simp
  have hyp: "0 < length [g1, g2] \<and> 0 < length [1, 0 :: int] \<and>
      \<not> out_of_grid (resolution test_tsdf) (voxel_of test_tsdf ([g1, g2] ! 0)) \<and>
      (\<forall>j. 0 < j \<and> j < length [g1, g2] \<and> j < length [1, 0 :: int] \<longrightarrow>
         voxel_of test_tsdf ([g1, g2] ! j) \<noteq> voxel_of test_tsdf ([g1, g2] ! 0))"
    using inside differ by (auto simp: less_Suc_eq)
  note inst = in_grid_pair_is_stored [of 0 "[g1, g2]" "[1, 0]" test_tsdf 1 g2 0]
  have a: "mask (store_sample 1 test_tsdf [g1, g2] [1, 0]) (voxel_of test_tsdf ([g1, g2] ! 0)) = 1"
    using inst hyp by blast
  have b: "qual_vol (store_sample 1 test_tsdf [g1, g2] [1, 0]) (voxel_of test_tsdf ([g1, g2] ! 0))
        = (if [1, 0 :: int] ! 0 = 1 then 1 else 0) \<and>
      width_vol (store_sample 1 test_tsdf [g1, g2] [1, 0]) (voxel_of test_tsdf ([g1, g2] ! 0))
        = width ([g1, g2] ! 0) \<and>
      rot_vol0 (store_sample 1 test_tsdf [g1, g2] [1, 0]) (voxel_of test_tsdf ([g1, g2] ! 0))
        = (qx (rotation (pose ([g1, g2] ! 0))), qy (rotation (pose ([g1, g2] ! 0))),
           qz (rotation (pose ([g1, g2] ! 0))), qw (rotation (pose ([g1, g2] ! 0))))"
    using inst hyp by blast
  have c: "\<forall>v. mask (store_sample 1 test_tsdf [g2] [0]) v = 0"
    using inst outside by blast
  have fields: "width g1 = 1 / 20" "rotation (pose g1) = Quat 0 0 0 1"
    unfolding g1_def by (simp_all add: grasp_at_def Grasp_def Transform_def rot_identity_def)
  show ?thesis
    using a b c inside outside differ
    unfolding g1_def [symmetric] g2_def [symmetric]
    by (simp add: v1 fields)
qed

text \<open>
  C7 as stated fails: two pairs with the same index inside the grid, the first with the
  label success and width 1/20, the second with another label and width 1/10.  The
  archive holds quality 0 and width 1/10 at the index, not the values of the first pair.
\<close>

theorem later_pair_overwrites_counterexample:
  "voxel_of test_tsdf (grasp_at (3 / 100, 4 / 100, 5 / 100) (1 / 20)) = (3, 4, 5) \<and>
   \<not> out_of_grid (resolution test_tsdf) (3, 4, 5) \<and>
   qual_vol (store_sample 1 test_tsdf
      [grasp_at (3 / 100, 4 / 100, 5 / 100) (1 / 20), grasp_at (3 / 100, 4 / 100, 5 / 100) (1 / 10)]
      [1, 0]) (3, 4, 5) = 0 \<and>
   width_vol (store_sample 1 test_tsdf
      [grasp_at (3 / 100, 4 / 100, 5 / 100) (1 / 20), grasp_at (3 / 100, 4 / 100, 5 / 100) (1 / 10)]
      [1, 0]) (3, 4, 5) = 1 / 10"
proof -
  define g1 where "g1 = grasp_at (3 / 100, 4 / 100, 5 / 100) (1 / 20)"
  define g2 where "g2 = grasp_at (3 / 100, 4 / 100, 5 / 100) (1 / 10)"
  have v: "voxel_of test_tsdf (grasp_at (3 / 100, 4 / 100, 5 / 100) w) = (3, 4, 5)" for w
    using voxel_of_grasp_at [of 3 4 5 w] by simp
  have v1: "voxel_of test_tsdf g1 = (3, 4, 5)" and v2: "voxel_of test_tsdf g2 = (3, 4, 5)"
    unfolding g1_def g2_def by (rule v)+
  have inside: "\<not> out_of_grid (resolution test_tsdf) (3, 4, 5)"
    by (simp add: out_of_grid_def test_tsdf_def)
  have in1: "\<not> out_of_grid (resolution test_tsdf) (voxel_of test_tsdf g1)"
    and in2: "\<not> out_of_grid (resolution test_tsdf) (voxel_of test_tsdf g2)"
    unfolding v1 v2 by (rule inside)+
  have w: "width g2 = 1 / 10" unfolding g2_def by (simp add: grasp_at_def Grasp_def)
  have "voxel_of test_tsdf g1 = (3, 4, 5) \<and>
      \<not> out_of_grid (resolution test_tsdf) (3, 4, 5) \<and>
      qual_vol (store_sample 1 test_tsdf [g1, g2] [1, 0]) (3, 4, 5) = 0 \<and>
      width_vol (store_sample 1 test_tsdf [g1, g2] [1, 0]) (3, 4, 5) = 1 / 10"
    using inside v1
    by (simp add: sample_fields store_grasp_in [OF in1] store_grasp_in [OF in2] v2
        label2quality_def w)
  then show ?thesis unfolding g1_def g2_def .
qed

end
